theory Spec2Isabelle
  imports Complex_Main "HOL-Library.Multiset" "HOL-Library.Product_Lexorder"
begin

section \<open>Domain model (models.py)\<close>

text \<open>
  Python integers are unbounded and are modelled as \<open>int\<close>.  Prices are Python floats,
  modelled by the type \<open>pyfloat\<close> below.  Python strings are modelled as \<open>string\<close>,
  i.e. as sequences of code points below 256.

  Every failure of models.py is a \<open>ValueError\<close>; the constructor argument records which
  \<open>raise\<close> statement produced it.  \<open>KeyError\<close> is raised by the data-frame library.
\<close>

datatype value_error =
    Bad_email | Bad_phone | Negative_price | Negative_stock
  | Insufficient_stock | Nonpositive_quantity | Unavailable

datatype error = ValueError value_error | KeyError string

subsection \<open>Floats\<close>

text \<open>
  A float is a finite number, one of the two infinities, or NaN.  The special values
  follow IEEE 754: NaN is absorbing, \<open>inf - inf\<close> and \<open>inf * 0\<close> are NaN, and every
  comparison with NaN is false, so that \<open>\<le>\<close> is not reflexive and \<open><\<close>, \<open>\<le>\<close> do not
  order the floats linearly.  The arithmetic of the finite values is idealised as exact:
  rounding, overflow to an infinity and the sign of zero are outside the model, and so
  is the \<open>OverflowError\<close> of converting an integer beyond the float range.

  \<open>float_key\<close> embeds the floats other than NaN into a linear order that agrees with
  their comparison; its value at NaN is arbitrary.
\<close>

datatype pyfloat = Fin real | PInf | NInf | NaN

fun float_key :: "pyfloat \<Rightarrow> int \<times> real" where
  "float_key (Fin r) = (0, r)"
| "float_key PInf = (1, 0)"
| "float_key NInf = (- 1, 0)"
| "float_key NaN = (0, 0)"

instantiation pyfloat :: "{comm_monoid_add, numeral, times, ord}"
begin

definition zero_pyfloat_def: "0 = Fin 0"

definition one_pyfloat_def: "1 = Fin 1"

fun plus_pyfloat :: "pyfloat \<Rightarrow> pyfloat \<Rightarrow> pyfloat" where
  "plus_pyfloat NaN y = NaN"
| "plus_pyfloat x NaN = NaN"
| "plus_pyfloat (Fin a) (Fin b) = Fin (a + b)"
| "plus_pyfloat PInf NInf = NaN"
| "plus_pyfloat NInf PInf = NaN"
| "plus_pyfloat PInf y = PInf"
| "plus_pyfloat x PInf = PInf"
| "plus_pyfloat NInf y = NInf"
| "plus_pyfloat x NInf = NInf"

fun times_pyfloat :: "pyfloat \<Rightarrow> pyfloat \<Rightarrow> pyfloat" where
  "times_pyfloat NaN y = NaN"
| "times_pyfloat x NaN = NaN"
| "times_pyfloat (Fin a) (Fin b) = Fin (a * b)"
| "times_pyfloat (Fin a) y =
     (if a = 0 then NaN else if (0 < a) = (y = PInf) then PInf else NInf)"
| "times_pyfloat x (Fin b) =
     (if b = 0 then NaN else if (0 < b) = (x = PInf) then PInf else NInf)"
| "times_pyfloat x y = (if x = y then PInf else NInf)"

definition less_eq_pyfloat_def:
  "a \<le> b \<longleftrightarrow> a \<noteq> NaN \<and> b \<noteq> NaN \<and> float_key a \<le> float_key b"

definition less_pyfloat_def:
  "a < b \<longleftrightarrow> a \<noteq> NaN \<and> b \<noteq> NaN \<and> float_key a < float_key b"

instance
proof
  fix x y z :: pyfloat
  show "0 + x = x"
    unfolding zero_pyfloat_def by (cases x) simp_all
  show "x + y = y + x"
    by (cases y; cases x) simp_all
  show "x + y + z = x + (y + z)"
    by (cases x; cases y; cases z) simp_all
qed

end

definition float_of_int :: "int \<Rightarrow> pyfloat" where   \<comment> \<open>the float of a Python integer\<close>
  "float_of_int i = Fin (of_int i)"

subsection \<open>Product\<close>

record Product =
  product_id :: int
  name :: string
  price :: pyfloat
  category :: string
  description :: string
  stock :: int

definition Product_init ::
  "int \<Rightarrow> string \<Rightarrow> pyfloat \<Rightarrow> string \<Rightarrow> string \<Rightarrow> int \<Rightarrow> error + Product" where
  "Product_init pid nm pr cat descr st =
     (if pr < 0 then Inl (ValueError Negative_price)
      else if st < 0 then Inl (ValueError Negative_stock)
      else Inr \<lparr>product_id = pid, name = nm, price = pr, category = cat,
                description = descr, stock = st\<rparr>)"

text \<open>
  \<open>update_stock\<close> mutates the product and returns \<open>True\<close>, or raises before the
  assignment.  The model returns the updated product together with the returned flag.
\<close>

definition update_stock :: "Product \<Rightarrow> int \<Rightarrow> error + (Product \<times> bool)" where
  "update_stock p quantity =
     (let new_stock = stock p + quantity
      in if new_stock < 0 then Inl (ValueError Insufficient_stock)
         else Inr (p\<lparr>stock := new_stock\<rparr>, True))"

definition is_available :: "Product \<Rightarrow> int \<Rightarrow> bool" where
  "is_available p quantity = (stock p \<ge> quantity)"

text \<open>
  The product object as it stands after one call of \<open>update_stock\<close>, whether the call
  returned or raised, and the objects seen after each call of a sequence of calls.
\<close>

definition after_update_stock :: "Product \<Rightarrow> int \<Rightarrow> Product" where
  "after_update_stock p quantity =
     (case update_stock p quantity of Inl e \<Rightarrow> p | Inr (p', r) \<Rightarrow> p')"

fun stock_history :: "Product \<Rightarrow> int list \<Rightarrow> Product list" where
  "stock_history p [] = []"
| "stock_history p (d # ds) =
     after_update_stock p d # stock_history (after_update_stock p d) ds"


subsection \<open>Regular expressions of the validators\<close>

text \<open>
  The two patterns of \<open>Person\<close> are built from literals, alternatives, sequences and
  bounded repetitions of a character class.  \<open>rems r s\<close> lists the remainders of \<open>s\<close>
  after every prefix that \<open>r\<close> matches, so \<open>re_match r s\<close> is what
  \<open>re.match('^' + r + '$', s)\<close> decides: some way of matching reaches the end of the
  string, where \<open>$\<close> also matches just before a final newline.
\<close>

datatype rexp =
    Lit string
  | Class "char \<Rightarrow> bool" nat "nat option"
  | Alt rexp rexp
  | Seq rexp rexp

fun reps :: "(char \<Rightarrow> bool) \<Rightarrow> nat \<Rightarrow> nat option \<Rightarrow> string \<Rightarrow> string list" where
  "reps P lo hi [] = (if lo = 0 then [[]] else [])"
| "reps P lo hi (c # t) =
     (if lo = 0 then [c # t] else []) @
     (if P c \<and> hi \<noteq> Some 0 then reps P (lo - 1) (map_option (\<lambda>h. h - 1) hi) t else [])"

fun rems :: "rexp \<Rightarrow> string \<Rightarrow> string list" where
  "rems (Lit l) s = (if take (length l) s = l then [drop (length l) s] else [])"
| "rems (Class P lo hi) s = reps P lo hi s"
| "rems (Alt a b) s = rems a s @ rems b s"
| "rems (Seq a b) s = concat (map (rems b) (rems a s))"

definition newline :: char where
  "newline = CHR 0x0A"

definition at_end :: "string \<Rightarrow> bool" where
  "at_end t = (t = [] \<or> t = [newline])"

definition re_match :: "rexp \<Rightarrow> string \<Rightarrow> bool" where
  "re_match r s = list_ex at_end (rems r s)"

definition in_range :: "char \<Rightarrow> char \<Rightarrow> char \<Rightarrow> bool" where
  "in_range lo hi c = ((of_char lo :: nat) \<le> of_char c \<and> (of_char c :: nat) \<le> of_char hi)"

definition is_alpha :: "char \<Rightarrow> bool" where   \<comment> \<open>\<open>[a-zA-Z]\<close>\<close>
  "is_alpha c = (in_range CHR ''a'' CHR ''z'' c \<or> in_range CHR ''A'' CHR ''Z'' c)"

definition is_digit :: "char \<Rightarrow> bool" where   \<comment> \<open>\<open>\d\<close>: below 256 the decimal digits are 0-9\<close>
  "is_digit c = in_range CHR ''0'' CHR ''9'' c"

definition is_space :: "char \<Rightarrow> bool" where   \<comment> \<open>\<open>\s\<close> on code points below 256\<close>
  "is_space c = ((of_char c :: nat) \<in> {9, 10, 11, 12, 13, 28, 29, 30, 31, 32, 133, 160})"

definition local_char :: "char \<Rightarrow> bool" where   \<comment> \<open>\<open>[a-zA-Z0-9._%+-]\<close>\<close>
  "local_char c = (is_alpha c \<or> is_digit c \<or> c \<in> set ''._%+-'')"

definition domain_char :: "char \<Rightarrow> bool" where   \<comment> \<open>\<open>[a-zA-Z0-9.-]\<close>\<close>
  "domain_char c = (is_alpha c \<or> is_digit c \<or> c \<in> set ''.-'')"

definition phone_char :: "char \<Rightarrow> bool" where   \<comment> \<open>\<open>[\d\(\)\-\s]\<close>\<close>
  "phone_char c = (is_digit c \<or> c \<in> set ''()-'' \<or> is_space c)"

definition email_pattern :: rexp where
  "email_pattern =
     Seq (Class local_char 1 None)
    (Seq (Lit ''@'')
    (Seq (Class domain_char 1 None)
    (Seq (Lit ''.'')
         (Class is_alpha 2 None))))"

definition phone_pattern :: rexp where
  "phone_pattern = Seq (Alt (Lit ''+7'') (Lit ''8'')) (Class phone_char 10 (Some 15))"

subsection \<open>Person and Customer\<close>

definition validate_email :: "string \<Rightarrow> error + string" where
  "validate_email email =
     (if \<not> re_match email_pattern email then Inl (ValueError Bad_email) else Inr email)"

definition clean_phone :: "string \<Rightarrow> string" where   \<comment> \<open>\<open>re.sub(r'[^\d+()]', '', phone)\<close>\<close>
  "clean_phone phone = filter (\<lambda>c. is_digit c \<or> c \<in> set ''+()'') phone"

definition validate_phone :: "string \<Rightarrow> error + string" where
  "validate_phone phone =
     (if \<not> re_match phone_pattern (clean_phone phone) then Inl (ValueError Bad_phone)
      else Inr phone)"

text \<open>
  The fields of \<open>Person\<close> are inlined into the customer.  The registration date (the
  clock) and the back-references to the customer's orders are left out.
\<close>

record Customer =
  customer_id :: int
  customer_name :: string
  email :: string
  phone :: string
  address :: string
  city :: string

definition Customer_init ::
  "int \<Rightarrow> string \<Rightarrow> string \<Rightarrow> string \<Rightarrow> string \<Rightarrow> string \<Rightarrow> error + Customer" where
  "Customer_init cid nm em ph addr ct =
     (case validate_email em of
        Inl e \<Rightarrow> Inl e
      | Inr em' \<Rightarrow>
          (case validate_phone ph of
             Inl e \<Rightarrow> Inl e
           | Inr ph' \<Rightarrow>
               Inr \<lparr>customer_id = cid, customer_name = nm, email = em', phone = ph',
                     address = addr, city = ct\<rparr>))"

text \<open>
  The shapes as the specification words them: \<open>local@domain.tld\<close>, and a national prefix
  \<open>+7\<close> or \<open>8\<close> followed by 10 to 15 digit or punctuation characters.
\<close>

definition email_shape :: "string \<Rightarrow> bool" where
  "email_shape e =
     (\<exists>local dom tld. e = local @ ''@'' @ dom @ ''.'' @ tld
        \<and> local \<noteq> [] \<and> list_all local_char local
        \<and> dom \<noteq> [] \<and> list_all domain_char dom
        \<and> 2 \<le> length tld \<and> list_all is_alpha tld)"

definition phone_shape :: "string \<Rightarrow> bool" where
  "phone_shape p =
     (\<exists>rest. (p = ''+7'' @ rest \<or> p = ''8'' @ rest)
        \<and> 10 \<le> length rest \<and> length rest \<le> 15 \<and> list_all phone_char rest)"

subsection \<open>OrderItem and Order\<close>

record OrderItem =
  product :: Product
  quantity :: int
  price_at_time :: pyfloat

definition OrderItem_init :: "Product \<Rightarrow> int \<Rightarrow> pyfloat option \<Rightarrow> error + OrderItem" where
  "OrderItem_init p q price_opt =
     (if q \<le> 0 then Inl (ValueError Nonpositive_quantity)
      else Inr \<lparr>product = p, quantity = q,
                price_at_time = (case price_opt of Some x \<Rightarrow> x | None \<Rightarrow> price p)\<rparr>)"

definition item_total :: "OrderItem \<Rightarrow> pyfloat" where   \<comment> \<open>\<open>OrderItem.get_total\<close>\<close>
  "item_total i = price_at_time i * float_of_int (quantity i)"

text \<open>
  A datetime is its seven fields; Python compares two of them field by field, which is
  the lexicographic order of \<open>dt_key\<close>.
\<close>

record datetime =
  year :: int
  month :: int
  day :: int
  hour :: int
  minute :: int
  second :: int
  microsecond :: int

definition dt_key :: "datetime \<Rightarrow> int \<times> int \<times> int \<times> int \<times> int \<times> int \<times> int" where
  "dt_key d = (year d, month d, day d, hour d, minute d, second d, microsecond d)"

record Order =
  order_id :: int
  customer :: Customer
  order_date :: datetime
  items :: "OrderItem list"
  status :: string

text \<open>The clock is a parameter; the initial status label is transliterated.\<close>

definition Order_init :: "datetime \<Rightarrow> int \<Rightarrow> Customer \<Rightarrow> datetime option \<Rightarrow> Order" where
  "Order_init now oid c date_opt =
     \<lparr>order_id = oid, customer = c,
      order_date = (case date_opt of Some d \<Rightarrow> d | None \<Rightarrow> now),
      items = [], status = ''Novyi''\<rparr>"

text \<open>
  The loop of \<open>add_item\<close> over the existing lines: the first line of the product gets
  the quantity added and the method returns; \<open>None\<close> means the loop ran to its end.
\<close>

fun add_to_line :: "OrderItem list \<Rightarrow> int \<Rightarrow> int \<Rightarrow> OrderItem list option" where
  "add_to_line [] pid q = None"
| "add_to_line (item # rest) pid q =
     (if product_id (product item) = pid
      then Some (item\<lparr>quantity := quantity item + q\<rparr> # rest)
      else map_option ((#) item) (add_to_line rest pid q))"

definition add_item :: "Order \<Rightarrow> Product \<Rightarrow> int \<Rightarrow> error + Order" where
  "add_item ord p q =
     (if \<not> is_available p q then Inl (ValueError Unavailable)
      else case add_to_line (items ord) (product_id p) q of
             Some its \<Rightarrow> Inr (ord\<lparr>items := its\<rparr>)
           | None \<Rightarrow>
               (case OrderItem_init p q None of
                  Inl e \<Rightarrow> Inl e
                | Inr order_item \<Rightarrow> Inr (ord\<lparr>items := items ord @ [order_item]\<rparr>)))"

definition get_total :: "Order \<Rightarrow> pyfloat" where
  "get_total ord = sum_list (map item_total (items ord))"

definition get_items_count :: "Order \<Rightarrow> int" where
  "get_items_count ord = sum_list (map quantity (items ord))"

definition pid_of :: "OrderItem \<Rightarrow> int" where   \<comment> \<open>\<open>item.product.product_id\<close>\<close>
  "pid_of i = product_id (product i)"

subsection \<open>The language of a pattern\<close>

text \<open>The set of strings a pattern matches, for comparison with \<open>rems\<close>.\<close>

fun lang :: "rexp \<Rightarrow> string set" where
  "lang (Lit l) = {l}"
| "lang (Class P lo hi) =
     {w. list_all P w \<and> lo \<le> length w \<and> (case hi of None \<Rightarrow> True | Some h \<Rightarrow> length w \<le> h)}"
| "lang (Alt a b) = lang a \<union> lang b"
| "lang (Seq a b) = {u @ v | u v. u \<in> lang a \<and> v \<in> lang b}"

subsection \<open>Objects of the test suite\<close>

definition test_customer :: Customer where
  "test_customer =
     \<lparr>customer_id = 1, customer_name = ''Test'', email = ''test@example.com'',
      phone = ''+7(999)123-45-67'', address = [], city = []\<rparr>"

definition test_product1 :: Product where
  "test_product1 =
     \<lparr>product_id = 1, name = ''Tovar 1'', price = 100, category = [],
      description = [], stock = 10\<rparr>"

definition test_product2 :: Product where
  "test_product2 =
     \<lparr>product_id = 2, name = ''Tovar 2'', price = 200, category = [],
      description = [], stock = 5\<rparr>"

definition date_of :: "int \<Rightarrow> int \<Rightarrow> int \<Rightarrow> datetime" where   \<comment> \<open>\<open>datetime(y, m, d)\<close>\<close>
  "date_of y m d =
     \<lparr>year = y, month = m, day = d, hour = 0, minute = 0, second = 0, microsecond = 0\<rparr>"

definition test_order :: Order where
  "test_order = Order_init (date_of 2023 1 15) 1 test_customer None"

section \<open>Sorting utilities (analysis.py)\<close>

definition date_lt :: "datetime \<Rightarrow> datetime \<Rightarrow> bool" where   \<comment> \<open>\<open><\<close> on datetimes\<close>
  "date_lt a b = (dt_key a < dt_key b)"





subsection \<open>The reference sort\<close>

text \<open>
  Python's \<open>sorted(xs, key=key, reverse=reverse)\<close>: a stable sort, which for
  \<open>reverse=True\<close> keeps equal elements in their input order as well.
\<close>

definition sorted_py :: "('a \<Rightarrow> 'k::linorder) \<Rightarrow> bool \<Rightarrow> 'a list \<Rightarrow> 'a list" where
  "sorted_py key reverse xs =
     (if reverse then rev (sort_key key (rev xs)) else sort_key key xs)"





text \<open>A product priced NaN, an order of it and an order of the first test product.\<close>

definition nan_product :: Product where
  "nan_product =
     \<lparr>product_id = 3, name = ''Tovar 3'', price = NaN, category = [],
      description = [], stock = 10\<rparr>"

definition nan_orders :: "Order list" where
  "nan_orders =
     [test_order\<lparr>items := [\<lparr>product = nan_product, quantity = 1, price_at_time = NaN\<rparr>]\<rparr>,
      test_order\<lparr>order_id := 2,
        items := [\<lparr>product = test_product1, quantity = 1, price_at_time = 100\<rparr>]\<rparr>]"

definition dir_sorted :: "('a \<Rightarrow> 'k::linorder) \<Rightarrow> bool \<Rightarrow> 'a list \<Rightarrow> bool" where
  "dir_sorted f reverse xs =
     (if reverse then sorted_wrt (\<lambda>a b. f a \<ge> f b) xs else sorted_wrt (\<lambda>a b. f a \<le> f b) xs)"



section \<open>Sales aggregation (analysis.py)\<close>

text \<open>
  A data frame is the list of its rows.  \<open>groupby\<close> is the library's grouping: one group
  per key that occurs, in ascending key order, each holding its rows in input order.
  The calendar functions are those of the standard library (\<open>date.toordinal\<close>,
  \<open>date.weekday\<close>); a weekly period runs from Monday to Sunday and is named by the
  ordinal of its Monday.  The library's sum of a float column skips the entries that are
  NaN (\<open>nansum\<close>); its sums of the integer column are taken over \<open>int\<close>, within the
  64-bit range of the library.
\<close>

definition nansum :: "pyfloat list \<Rightarrow> pyfloat" where
  "nansum xs = sum_list (filter (\<lambda>x. x \<noteq> NaN) xs)"

definition is_leap :: "int \<Rightarrow> bool" where
  "is_leap y = (y mod 4 = 0 \<and> (y mod 100 \<noteq> 0 \<or> y mod 400 = 0))"

definition days_before_year :: "int \<Rightarrow> int" where
  "days_before_year y = (let z = y - 1 in z * 365 + z div 4 - z div 100 + z div 400)"

definition days_before_month :: "int \<Rightarrow> int \<Rightarrow> int" where
  "days_before_month y m =
     [0, 31, 59, 90, 120, 151, 181, 212, 243, 273, 304, 334] ! nat (m - 1)
       + (if m > 2 \<and> is_leap y then 1 else 0)"

definition toordinal :: "datetime \<Rightarrow> int" where
  "toordinal d = days_before_year (year d) + days_before_month (year d) (month d) + day d"

definition weekday :: "datetime \<Rightarrow> int" where
  "weekday d = (toordinal d + 6) mod 7"

datatype period = Day int int int | Week int | Month int int

definition period_key :: "period \<Rightarrow> int \<times> int \<times> int" where
  "period_key p =
     (case p of Day y m d \<Rightarrow> (y, m, d) | Week n \<Rightarrow> (n, 0, 0) | Month y m \<Rightarrow> (y, m, 0))"

record order_row =
  row_order_id :: int
  row_customer_id :: int
  row_customer_name :: string
  row_order_date :: datetime
  row_status :: string
  row_items_count :: int
  row_total :: pyfloat

definition create_orders_dataframe :: "Order list \<Rightarrow> order_row list" where
  "create_orders_dataframe orders =
     map (\<lambda>ord. \<lparr>row_order_id = order_id ord,
                  row_customer_id = customer_id (customer ord),
                  row_customer_name = customer_name (customer ord),
                  row_order_date = order_date ord,
                  row_status = status ord,
                  row_items_count = get_items_count ord,
                  row_total = get_total ord\<rparr>) orders"

definition groupby :: "('r \<Rightarrow> 'k) \<Rightarrow> ('k \<Rightarrow> 'o::linorder) \<Rightarrow> 'r list \<Rightarrow> ('k \<times> 'r list) list" where
  "groupby key ord rows =
     map (\<lambda>k. (k, filter (\<lambda>r. key r = k) rows)) (sort_key ord (remdups (map key rows)))"

text \<open>
  \<open>sel\<close> is the argument \<open>period\<close> of \<open>get_sales_dynamics\<close>; the name \<open>period\<close> is
  kept for the column of the result.  Dates are taken to be valid calendar dates within
  the range the data-frame library represents.
\<close>

definition period_of :: "string \<Rightarrow> datetime \<Rightarrow> period" where
  "period_of sel d =
     (if sel = ''weekly'' then Week (toordinal d - weekday d)
      else if sel = ''monthly'' then Month (year d) (month d)
      else Day (year d) (month d) (day d))"

record sales_row =
  period :: period
  orders_count :: int
  total_revenue :: pyfloat
  total_items :: int

definition get_sales_dynamics :: "Order list \<Rightarrow> string \<Rightarrow> sales_row list" where
  "get_sales_dynamics orders sel =
     (let df = create_orders_dataframe orders
      in if df = [] then []
         else map (\<lambda>(k, grp).
                \<lparr>period = k,
                 orders_count = int (length grp),
                 total_revenue = nansum (map row_total grp),
                 total_items = sum_list (map row_items_count grp)\<rparr>)
              (groupby (\<lambda>r. period_of sel (row_order_date r)) period_key df))"

text \<open>
  The inputs on which the float arithmetic of the code is exact, as it is in the model:
  every line has a whole price and a quantity of at most \<open>2^53\<close> in absolute value, and
  the absolute values of the line totals sum to at most \<open>2^53\<close>.  Every total and every
  partial sum of totals is then a whole number of at most that size, which a float holds
  exactly, in whatever order the sum is taken.
\<close>

fun whole :: "pyfloat \<Rightarrow> bool" where
  "whole (Fin r) = (r \<in> \<int>)"
| "whole x = False"

fun magnitude :: "pyfloat \<Rightarrow> real" where
  "magnitude (Fin r) = \<bar>r\<bar>"
| "magnitude x = 0"

definition exact_sums :: "Order list \<Rightarrow> bool" where
  "exact_sums orders =
     (list_all (\<lambda>i. whole (price_at_time i) \<and> \<bar>quantity i\<bar> \<le> 2 ^ 53)
        (concat (map items orders))
      \<and> sum_list (map (\<lambda>i. magnitude (item_total i)) (concat (map items orders))) \<le> 2 ^ 53)"

text \<open>Three orders on two days of one week.\<close>

definition sample_orders :: "Order list" where
  "sample_orders =
     [\<lparr>order_id = 1, customer = test_customer, order_date = date_of 2023 1 15,
       items = [\<lparr>product = test_product2, quantity = 1, price_at_time = 200\<rparr>],
       status = ''Novyi''\<rparr>,
      \<lparr>order_id = 2, customer = test_customer, order_date = date_of 2023 1 10,
       items = [\<lparr>product = test_product1, quantity = 1, price_at_time = 100\<rparr>],
       status = ''Novyi''\<rparr>,
      \<lparr>order_id = 3, customer = test_customer, order_date = date_of 2023 1 15,
       items = [\<lparr>product = test_product1, quantity = 3, price_at_time = 100\<rparr>],
       status = ''Novyi''\<rparr>]"


section \<open>Relationship graphs (analysis.py)\<close>

text \<open>
  A dictionary is the list of its items in insertion order; assigning to an existing key
  keeps the key's place.  A graph of the graph library is its node dictionary (a node
  added by \<open>add_edge\<close> alone has no attributes) and its symmetric adjacency, here a map
  from ordered pairs to the edge attribute, always updated in both directions.
\<close>

fun dict_set :: "'k \<Rightarrow> 'v \<Rightarrow> ('k \<times> 'v) list \<Rightarrow> ('k \<times> 'v) list" where
  "dict_set k v [] = [(k, v)]"
| "dict_set k v ((k', v') # rest) =
     (if k' = k then (k, v) # rest else (k', v') # dict_set k v rest)"

definition dict_get :: "('k \<times> 'v) list \<Rightarrow> 'k \<Rightarrow> 'v \<Rightarrow> 'v" where
  "dict_get d k dflt = (case map_of d k of Some v \<Rightarrow> v | None \<Rightarrow> dflt)"

record 'e graph =
  nodes :: "int \<rightharpoonup> (string \<times> string) option"
  adj :: "int \<times> int \<rightharpoonup> 'e"

definition empty_graph :: "'e graph" where
  "empty_graph = \<lparr>nodes = Map.empty, adj = Map.empty\<rparr>"

definition add_node :: "'e graph \<Rightarrow> int \<Rightarrow> string \<times> string \<Rightarrow> 'e graph" where
  "add_node g n attr = g\<lparr>nodes := (nodes g)(n \<mapsto> Some attr)\<rparr>"

definition touch_node :: "(int \<rightharpoonup> (string \<times> string) option) \<Rightarrow> int
    \<Rightarrow> (int \<rightharpoonup> (string \<times> string) option)" where
  "touch_node ns n = (if ns n = None then ns(n \<mapsto> None) else ns)"

definition add_edge :: "'e graph \<Rightarrow> int \<Rightarrow> int \<Rightarrow> 'e \<Rightarrow> 'e graph" where
  "add_edge g u v e =
     g\<lparr>nodes := touch_node (touch_node (nodes g) u) v,
       adj := (adj g)((u, v) \<mapsto> e, (v, u) \<mapsto> e)\<rparr>"

definition has_edge :: "'e graph \<Rightarrow> int \<Rightarrow> int \<Rightarrow> bool" where
  "has_edge g u v = (adj g (u, v) \<noteq> None)"

fun pairs_of :: "'a list \<Rightarrow> ('a \<times> 'a) list" where
  "pairs_of [] = []"
| "pairs_of (x # xs) = map (Pair x) xs @ pairs_of xs"

text \<open>
  The first loop of \<open>build_customer_product_graph\<close> fills a dictionary from product ids
  to the customers who bought the product, each customer once; the last loop visits
  every index pair \<open>i < j\<close> of every such list, which \<open>pairs_of\<close> enumerates in the
  same order.
\<close>

definition note_purchase :: "int \<Rightarrow> (int \<times> int list) list \<Rightarrow> OrderItem \<Rightarrow> (int \<times> int list) list" where
  "note_purchase cid pc item =
     (let pid = product_id (product item);
          seen = dict_get pc pid []
      in if cid \<notin> set seen then dict_set pid (seen @ [cid]) pc else pc)"

definition product_customers :: "Order list \<Rightarrow> (int \<times> int list) list" where
  "product_customers orders =
     foldl (\<lambda>pc ord. foldl (note_purchase (customer_id (customer ord))) pc (items ord))
       [] orders"

definition bump_weight :: "int graph \<Rightarrow> int \<times> int \<Rightarrow> int graph" where
  "bump_weight g e =
     (case e of (customer1, customer2) \<Rightarrow>
        (case adj g (customer1, customer2) of
           Some w \<Rightarrow> g\<lparr>adj := (adj g)((customer1, customer2) \<mapsto> w + 1,
                                       (customer2, customer1) \<mapsto> w + 1)\<rparr>
         | None \<Rightarrow> add_edge g customer1 customer2 1))"

definition build_customer_product_graph :: "Customer list \<Rightarrow> Order list \<Rightarrow> int graph" where
  "build_customer_product_graph customers orders =
     (let g = foldl (\<lambda>g c. add_node g (customer_id c) (customer_name c, city c))
                empty_graph customers
      in foldl (\<lambda>g (pid, customers_list). foldl bump_weight g (pairs_of customers_list))
           g (product_customers orders))"

subsection \<open>Purchases, and the vocabulary of the proofs\<close>

text \<open>
  \<open>bought orders c p\<close>: some order of customer \<open>c\<close> has a line of product \<open>p\<close>.  The
  remaining definitions name what the proofs speak about: the buyers recorded for a
  product, one step of the first loop on a pair of ids, the invariant of the dictionary,
  the weight of an edge (0 when there is none), the invariant of the graph, and whether a
  pair of nodes is the given edge in either direction.
\<close>

definition bought :: "Order list \<Rightarrow> int \<Rightarrow> int \<Rightarrow> bool" where
  "bought orders c p =
     list_ex (\<lambda>ord. customer_id (customer ord) = c \<and> list_ex (\<lambda>i. pid_of i = p) (items ord))
       orders"

definition members :: "(int \<times> int list) list \<Rightarrow> int \<Rightarrow> int set" where
  "members pc p = set (dict_get pc p [])"

definition np :: "(int \<times> int list) list \<Rightarrow> int \<times> int \<Rightarrow> (int \<times> int list) list" where
  "np pc cp = (case cp of (c, p) \<Rightarrow>
     (if c \<notin> set (dict_get pc p []) then dict_set p (dict_get pc p [] @ [c]) pc else pc))"

definition wf_pc :: "(int \<times> int list) list \<Rightarrow> bool" where
  "wf_pc pc \<longleftrightarrow> distinct (map fst pc) \<and> (\<forall>p. distinct (dict_get pc p []))"

definition purchases :: "Order list \<Rightarrow> (int \<times> int) list" where
  "purchases orders =
     concat (map (\<lambda>ord. map (\<lambda>i. (customer_id (customer ord), pid_of i)) (items ord)) orders)"

definition weight_of :: "int graph \<Rightarrow> int \<Rightarrow> int \<Rightarrow> int" where
  "weight_of g u v = (case adj g (u, v) of None \<Rightarrow> 0 | Some w \<Rightarrow> w)"

definition good :: "int graph \<Rightarrow> bool" where
  "good g \<longleftrightarrow> (\<forall>u v. adj g (u, v) = adj g (v, u)) \<and> (\<forall>e w. adj g e = Some w \<longrightarrow> 0 < w)"

definition joins :: "int \<times> int \<Rightarrow> int \<Rightarrow> int \<Rightarrow> bool" where
  "joins e u v = (e = (u, v) \<or> e = (v, u))"

definition shared_products :: "Order list \<Rightarrow> int \<Rightarrow> int \<Rightarrow> int set" where
  "shared_products orders c1 c2 = {p. bought orders c1 p \<and> bought orders c2 p}"

subsection \<open>Sample customers and orders\<close>

definition cust :: "int \<Rightarrow> string \<Rightarrow> string \<Rightarrow> Customer" where
  "cust i nm ct =
     \<lparr>customer_id = i, customer_name = nm, email = ''c@test.com'',
      phone = ''+7(999)111-11-11'', address = [], city = ct\<rparr>"

definition order_of :: "int \<Rightarrow> Customer \<Rightarrow> (Product \<times> int) list \<Rightarrow> Order" where
  "order_of oid c lines =
     \<lparr>order_id = oid, customer = c, order_date = date_of 2023 1 15,
      items = map (\<lambda>(p, q). \<lparr>product = p, quantity = q, price_at_time = price p\<rparr>) lines,
      status = ''Novyi''\<rparr>"

definition net_customers :: "Customer list" where
  "net_customers =
     [cust 1 ''Klient1'' ''Moskva'', cust 2 ''Klient2'' ''Moskva'',
      cust 3 ''Klient3'' ''Moskva'', cust 4 ''Klient4'' []]"

definition net_orders :: "Order list" where
  "net_orders =
     [order_of 1 (cust 1 ''Klient1'' ''Moskva'') [(test_product1, 1), (test_product2, 2)],
      order_of 2 (cust 2 ''Klient2'' ''Moskva'') [(test_product1, 1)],
      order_of 3 (cust 2 ''Klient2'' ''Moskva'') [(test_product2, 1)],
      order_of 4 (cust 1 ''Klient1'' ''Moskva'') [(test_product1, 3)]]"

subsection \<open>The shared-city graph\<close>

definition note_city :: "(string \<times> int list) list \<times> string graph \<Rightarrow> Customer
    \<Rightarrow> (string \<times> int list) list \<times> string graph" where
  "note_city acc c =
     (case acc of (city_customers, g) \<Rightarrow>
        if city c \<noteq> []
        then (dict_set (city c) (dict_get city_customers (city c) [] @ [customer_id c])
                city_customers,
              add_node g (customer_id c) (customer_name c, city c))
        else (city_customers, g))"

definition build_customer_city_graph :: "Customer list \<Rightarrow> string graph" where
  "build_customer_city_graph customers =
     (case foldl note_city ([], empty_graph) customers of
        (city_customers, g) \<Rightarrow>
          foldl (\<lambda>g (ct, customers_list).
                   foldl (\<lambda>g (customer1, customer2). add_edge g customer1 customer2 ct)
                     g (pairs_of customers_list))
            g city_customers)"

definition edge_set :: "'e graph \<Rightarrow> int set set" where
  "edge_set g = {{u, v} | u v. has_edge g u v}"

text \<open>
  For the proofs: the ids of the customers of a city in input order, the edge loop as a
  fold over tagged pairs, the dictionary part of the first loop, and the tagged pairs
  that are a given edge.
\<close>

definition in_city :: "Customer list \<Rightarrow> string \<Rightarrow> int list" where
  "in_city cs ct = map customer_id (filter (\<lambda>c. city c = ct \<and> ct \<noteq> []) cs)"

definition tag_edge :: "string graph \<Rightarrow> int \<times> int \<times> string \<Rightarrow> string graph" where
  "tag_edge g e = (case e of (u, v, ct) \<Rightarrow> add_edge g u v ct)"

definition city_edges :: "(string \<times> int list) list \<Rightarrow> (int \<times> int \<times> string) list" where
  "city_edges cc = concat (map (\<lambda>(ct, l). map (\<lambda>(u, v). (u, v, ct)) (pairs_of l)) cc)"

definition city_step :: "(string \<times> int list) list \<Rightarrow> Customer \<Rightarrow> (string \<times> int list) list" where
  "city_step cc c =
     (if city c \<noteq> [] then dict_set (city c) (dict_get cc (city c) [] @ [customer_id c]) cc
      else cc)"

definition matching :: "(int \<times> int \<times> string) list \<Rightarrow> int \<Rightarrow> int \<Rightarrow> (int \<times> int \<times> string) list" where
  "matching ts u v = filter (\<lambda>e. joins (fst e, fst (snd e)) u v) ts"

section \<open>Per-product sales statistics (analysis.py)\<close>

text \<open>
  The default entry of the statistics dictionary has no name and no category; both are
  assigned on every line, before anything reads them.  The rows are built in the order
  of the dictionary and handed to the data-frame library: a frame built from an empty
  list has no columns, so sorting it by \<open>revenue\<close> raises \<open>KeyError\<close>.  The library's
  sort by descending revenue is the parameter \<open>sort_values\<close>; the lemma on the rows
  assumes of it that it permutes the rows and, when no revenue is NaN, sorts them.
\<close>

record product_stat =
  stat_name :: string
  stat_category :: string
  stat_quantity :: int
  stat_revenue :: pyfloat
  stat_orders :: int

definition stat_default :: product_stat where
  "stat_default =
     \<lparr>stat_name = [], stat_category = [], stat_quantity = 0, stat_revenue = 0,
      stat_orders = 0\<rparr>"

definition note_sale :: "(int \<times> product_stat) list \<Rightarrow> OrderItem \<Rightarrow> (int \<times> product_stat) list" where
  "note_sale product_stats item =
     (let pid = product_id (product item);
          cur = dict_get product_stats pid stat_default
      in dict_set pid
           \<lparr>stat_name = name (product item),
            stat_category = category (product item),
            stat_quantity = stat_quantity cur + quantity item,
            stat_revenue = stat_revenue cur + item_total item,
            stat_orders = stat_orders cur + 1\<rparr>
           product_stats)"

definition product_stats :: "Order list \<Rightarrow> (int \<times> product_stat) list" where
  "product_stats orders = foldl (\<lambda>stats ord. foldl note_sale stats (items ord)) [] orders"

record stats_row =
  sr_product_id :: int
  sr_name :: string
  sr_category :: string
  quantity_sold :: int
  revenue :: pyfloat
  sr_orders_count :: int

definition stats_data :: "Order list \<Rightarrow> stats_row list" where
  "stats_data orders =
     map (\<lambda>(pid, stats).
            \<lparr>sr_product_id = pid, sr_name = stat_name stats,
             sr_category = stat_category stats, quantity_sold = stat_quantity stats,
             revenue = stat_revenue stats, sr_orders_count = stat_orders stats\<rparr>)
       (product_stats orders)"

definition get_product_sales_stats ::
  "(stats_row list \<Rightarrow> stats_row list) \<Rightarrow> Order list \<Rightarrow> error + stats_row list" where
  "get_product_sales_stats sort_values orders =
     (let data = stats_data orders
      in if data = [] then Inl (KeyError ''revenue'') else Inr (sort_values data))"

text \<open>
  For the statement of what the rows hold: all order lines in iteration order, the lines
  of one product, and the entry that a sequence of lines leaves in the dictionary.
\<close>

definition order_lines :: "Order list \<Rightarrow> OrderItem list" where
  "order_lines orders = concat (map items orders)"

definition lines_of :: "Order list \<Rightarrow> int \<Rightarrow> OrderItem list" where
  "lines_of orders pid = filter (\<lambda>i. pid_of i = pid) (order_lines orders)"

definition add_lines :: "product_stat \<Rightarrow> OrderItem list \<Rightarrow> product_stat" where
  "add_lines cur ls =
     (if ls = [] then cur
      else \<lparr>stat_name = name (product (last ls)),
            stat_category = category (product (last ls)),
            stat_quantity = stat_quantity cur + sum_list (map quantity ls),
            stat_revenue = stat_revenue cur + sum_list (map item_total ls),
            stat_orders = stat_orders cur + int (length ls)\<rparr>)"

definition stat_row :: "int \<times> product_stat \<Rightarrow> stats_row" where
  "stat_row e =
     \<lparr>sr_product_id = fst e, sr_name = stat_name (snd e),
      sr_category = stat_category (snd e), quantity_sold = stat_quantity (snd e),
      revenue = stat_revenue (snd e), sr_orders_count = stat_orders (snd e)\<rparr>"

text \<open>The catalogue and the three orders of the specification's example.\<close>

definition shop_products :: "Product list" where
  "shop_products =
     [\<lparr>product_id = 1, name = ''Noutbuk'', price = 50000, category = ''Tekhnika'',
       description = [], stock = 10\<rparr>,
      \<lparr>product_id = 2, name = ''Mysh'', price = 2000, category = ''Aksessuary'',
       description = [], stock = 20\<rparr>,
      \<lparr>product_id = 3, name = ''Klaviatura'', price = 5000, category = ''Aksessuary'',
       description = [], stock = 15\<rparr>]"

definition shop_orders :: "Order list" where
  "shop_orders =
     [order_of 1 (cust 1 ''Aleksei'' ''Moskva'') [(shop_products ! 0, 1)],
      order_of 2 (cust 2 ''Boris'' ''Spb'') [(shop_products ! 1, 1), (shop_products ! 2, 1)],
      order_of 3 (cust 3 ''Vera'' ''Moskva'') [(shop_products ! 1, 2)]]"

section \<open>Float arithmetic\<close>

lemma numeral_pyfloat [simp]: "numeral k = Fin (numeral k)"
proof (induction k)
  case One
  show ?case by (simp add: one_pyfloat_def)
next
  case (Bit0 k)
  have "numeral (num.Bit0 k) = (numeral k :: pyfloat) + numeral k"
    by (rule numeral_Bit0)
  also have "\<dots> = Fin (numeral k) + Fin (numeral k)"
    by (simp only: Bit0)
  also have "\<dots> = Fin (numeral k + numeral k)"
    by (simp only: plus_pyfloat.simps)
  also have "numeral k + numeral k = (numeral (num.Bit0 k) :: real)"
    by (rule numeral_Bit0 [symmetric])
  finally show ?case .
next
  case (Bit1 k)
  have "numeral (num.Bit1 k) = (numeral k :: pyfloat) + numeral k + 1"
    by (rule numeral_Bit1)
  also have "\<dots> = Fin (numeral k) + Fin (numeral k) + Fin 1"
    by (simp only: Bit1 one_pyfloat_def)
  also have "\<dots> = Fin (numeral k + numeral k + 1)"
    by (simp only: plus_pyfloat.simps)
  also have "numeral k + numeral k + 1 = (numeral (num.Bit1 k) :: real)"
    by (rule numeral_Bit1 [symmetric])
  finally show ?case .
qed

lemma zero_compare [simp]:
  "Fin a < 0 \<longleftrightarrow> a < 0" "0 < Fin a \<longleftrightarrow> 0 < a"
  "Fin a \<le> 0 \<longleftrightarrow> a \<le> 0" "0 \<le> Fin a \<longleftrightarrow> 0 \<le> a"
  "(0::pyfloat) \<noteq> NaN" "NaN \<noteq> (0::pyfloat)" "float_key 0 = (0, 0)"
  by (simp_all add: zero_pyfloat_def less_eq_pyfloat_def less_pyfloat_def)

lemma Fin_zero [simp]: "Fin 0 = 0"
  by (simp add: zero_pyfloat_def)

lemma one_pyfloat [simp]: "(1::pyfloat) = Fin 1"
  by (simp add: one_pyfloat_def)

lemma less_eq_Fin [simp]: "Fin a \<le> Fin b \<longleftrightarrow> a \<le> b"
  by (simp add: less_eq_pyfloat_def)

lemma less_Fin [simp]: "Fin a < Fin b \<longleftrightarrow> a < b"
  by (simp add: less_pyfloat_def)

lemma nan_compare [simp]:
  "\<not> NaN \<le> x" "\<not> x \<le> NaN" "\<not> NaN < x" "\<not> x < NaN"
  by (simp_all add: less_eq_pyfloat_def less_pyfloat_def)


section \<open>Product stock\<close>

lemma after_update_stock_nonneg:
  "0 \<le> stock p \<Longrightarrow> 0 \<le> stock (after_update_stock p d)"
  by (simp add: after_update_stock_def update_stock_def Let_def)

lemma stock_history_nonneg:
  "0 \<le> stock p \<Longrightarrow> q \<in> set (stock_history p ds) \<Longrightarrow> 0 \<le> stock q"
proof (induction ds arbitrary: p)
  case Nil
  then show ?case by simp
next
  case (Cons d ds)
  have step: "0 \<le> stock (after_update_stock p d)"
    using Cons.prems(1) by (rule after_update_stock_nonneg)
  from Cons.prems(2) consider "q = after_update_stock p d"
    | "q \<in> set (stock_history (after_update_stock p d) ds)"
    by auto
  then show ?case
  proof cases
    case 1
    with step show ?thesis by simp
  next
    case 2
    with Cons.IH [OF step] show ?thesis by simp
  qed
qed

lemma Product_init_stock:
  "Product_init pid nm pr cat descr st = Inr p \<Longrightarrow> 0 \<le> stock p"
  by (auto simp: Product_init_def split: if_splits)

text \<open>
  C1.  For a product built by the constructor and any finite sequence of
  \<open>update_stock\<close> calls, the stock is non-negative after every call.  A call with
  \<open>stock + delta < 0\<close> raises the insufficient-stock error and leaves the product as it
  was; every other call stores \<open>stock + delta\<close> (changing nothing else) and returns
  \<open>True\<close>.
\<close>

theorem update_stock_invariant:
  assumes "Product_init pid nm pr cat descr st = Inr p0"
  shows "(\<forall>q \<in> set (stock_history p0 ds). 0 \<le> stock q)
       \<and> (\<forall>p d. stock p + d < 0 \<longrightarrow>
              update_stock p d = Inl (ValueError Insufficient_stock)
              \<and> after_update_stock p d = p)
       \<and> (\<forall>p d. \<not> stock p + d < 0 \<longrightarrow>
              update_stock p d = Inr (p\<lparr>stock := stock p + d\<rparr>, True)
              \<and> stock (after_update_stock p d) = stock p + d)"
proof (intro conjI allI impI ballI)
  fix q assume "q \<in> set (stock_history p0 ds)"
  with Product_init_stock [OF assms] show "0 \<le> stock q"
    by (rule stock_history_nonneg)
qed (simp_all add: update_stock_def after_update_stock_def Let_def)

theorem update_stock_invariant_witness:
  "Product_init 1 ''Tovar 1'' 100 [] [] 10 = Inr test_product1
   \<and> map stock (stock_history test_product1 [-3, 5, -15]) = [7, 12, 12]
   \<and> list_all (\<lambda>q. 0 \<le> stock q) (stock_history test_product1 [-3, 5, -15])
   \<and> update_stock (test_product1\<lparr>stock := 12\<rparr>) (-15) = Inl (ValueError Insufficient_stock)
   \<and> after_update_stock (test_product1\<lparr>stock := 12\<rparr>) (-15) = test_product1\<lparr>stock := 12\<rparr>
   \<and> update_stock test_product1 (-3) = Inr (test_product1\<lparr>stock := 7\<rparr>, True)"
proof -
  have init: "Product_init 1 ''Tovar 1'' 100 [] [] 10 = Inr test_product1"
    by (simp add: Product_init_def test_product1_def)
  note inst = update_stock_invariant [OF init, of "[-3, 5, -15]"]
  have hist: "map stock (stock_history test_product1 [-3, 5, -15]) = [7, 12, 12]"
    by (simp add: after_update_stock_def update_stock_def Let_def test_product1_def)
  have inv: "list_all (\<lambda>q. 0 \<le> stock q) (stock_history test_product1 [-3, 5, -15])"
    using inst [THEN conjunct1] unfolding list_all_iff .
  have fail: "update_stock (test_product1\<lparr>stock := 12\<rparr>) (-15) = Inl (ValueError Insufficient_stock)
      \<and> after_update_stock (test_product1\<lparr>stock := 12\<rparr>) (-15) = test_product1\<lparr>stock := 12\<rparr>"
    using inst [THEN conjunct2, THEN conjunct1, rule_format, of "test_product1\<lparr>stock := 12\<rparr>" "-15"]
    by simp
  have ok: "update_stock test_product1 (-3) = Inr (test_product1\<lparr>stock := 7\<rparr>, True)"
    using inst [THEN conjunct2, THEN conjunct2, rule_format, of test_product1 "-3"]
    by (simp add: test_product1_def)
  from init hist inv fail ok show ?thesis by simp
qed

section \<open>Order lines\<close>

lemma add_to_line_None: "pid \<notin> pid_of ` set its \<Longrightarrow> add_to_line its pid q = None"
  by (induction its) (auto simp: pid_of_def)

lemma add_to_line_Some:
  "distinct (map pid_of its) \<Longrightarrow> pid \<in> pid_of ` set its \<Longrightarrow>
   add_to_line its pid q
     = Some (map (\<lambda>i. if pid_of i = pid then i\<lparr>quantity := quantity i + q\<rparr> else i) its)"
proof (induction its)
  case Nil then show ?case by simp
next
  case (Cons a its)
  show ?case
  proof (cases "pid_of a = pid")
    case True
    with Cons.prems(1) have "\<forall>i \<in> set its. pid_of i \<noteq> pid" by (force simp: image_iff)
    then have "map (\<lambda>i. if pid_of i = pid then i\<lparr>quantity := quantity i + q\<rparr> else i) its = its"
      by (simp add: map_idI)
    with True show ?thesis by (simp add: pid_of_def)
  next
    case False
    with Cons show ?thesis by (auto simp: pid_of_def)
  qed
qed

lemma filter_unique_key:
  "distinct (map f xs) \<Longrightarrow> x \<in> set xs \<Longrightarrow> filter (\<lambda>i. f i = f x) xs = [x]"
proof (induction xs)
  case Nil then show ?case by simp
next
  case (Cons a xs)
  show ?case
  proof (cases "a = x")
    case True
    with Cons.prems(1) have "\<forall>i \<in> set xs. f i \<noteq> f x" by (force simp: image_iff)
    then have "filter (\<lambda>i. f i = f x) xs = []" by (simp add: filter_empty_conv)
    with True show ?thesis by simp
  next
    case False
    with Cons.prems have "x \<in> set xs" "f a \<noteq> f x" by (auto simp: image_iff)
    with Cons show ?thesis by simp
  qed
qed

lemma add_item_existing:
  assumes "is_available p q" "distinct (map pid_of (items ord))"
    "old \<in> set (items ord)" "pid_of old = product_id p"
  shows "add_item ord p q =
      Inr (ord\<lparr>items := map (\<lambda>i. if pid_of i = product_id p
                                then i\<lparr>quantity := quantity i + q\<rparr> else i) (items ord)\<rparr>)"
    and "filter (\<lambda>i. pid_of i = product_id p)
          (map (\<lambda>i. if pid_of i = product_id p
                                then i\<lparr>quantity := quantity i + q\<rparr> else i) (items ord))
         = [old\<lparr>quantity := quantity old + q\<rparr>]"
proof -
  from assms(3,4) have "product_id p \<in> pid_of ` set (items ord)" by force
  from add_to_line_Some [OF assms(2) this, of q] assms(1)
  show "add_item ord p q =
      Inr (ord\<lparr>items := map (\<lambda>i. if pid_of i = product_id p
                                then i\<lparr>quantity := quantity i + q\<rparr> else i) (items ord)\<rparr>)"
    by (simp add: add_item_def)
  have "filter (\<lambda>i. pid_of i = product_id p)
          (map (\<lambda>i. if pid_of i = product_id p
                                then i\<lparr>quantity := quantity i + q\<rparr> else i) (items ord))
      = map (\<lambda>i. i\<lparr>quantity := quantity i + q\<rparr>) (filter (\<lambda>i. pid_of i = product_id p) (items ord))"
    by (induction "items ord") (auto simp: filter_map o_def pid_of_def intro!: filter_cong)
  also have "filter (\<lambda>i. pid_of i = product_id p) (items ord) = [old]"
    using filter_unique_key [OF assms(2,3)] assms(4) by simp
  finally show "filter (\<lambda>i. pid_of i = product_id p)
          (map (\<lambda>i. if pid_of i = product_id p
                                then i\<lparr>quantity := quantity i + q\<rparr> else i) (items ord))
         = [old\<lparr>quantity := quantity old + q\<rparr>]" by simp
qed

lemma add_item_new:
  assumes "is_available p q" "0 < q" "product_id p \<notin> pid_of ` set (items ord)"
  shows "add_item ord p q =
      Inr (ord\<lparr>items := items ord @ [\<lparr>product = p, quantity = q, price_at_time = price p\<rparr>]\<rparr>)"
  using assms add_to_line_None [OF assms(3), of q]
  by (simp add: add_item_def OrderItem_init_def)

text \<open>Orders built by \<open>add_item\<close> from an empty order have one line per product.\<close>

lemma add_item_one_line_per_product:
  assumes "distinct (map pid_of (items ord))" "add_item ord p q = Inr ord'"
  shows "distinct (map pid_of (items ord'))"
proof (cases "product_id p \<in> pid_of ` set (items ord)")
  case True
  let ?f = "\<lambda>i. if pid_of i = product_id p then i\<lparr>quantity := quantity i + q\<rparr> else i"
  from add_to_line_Some [OF assms(1) True, of q] assms(2)
  have "items ord' = map ?f (items ord)"
    by (auto simp: add_item_def split: if_splits)
  moreover have "pid_of (?f i) = pid_of i" for i
    by (simp add: pid_of_def)
  then have "map pid_of (map ?f (items ord)) = map pid_of (items ord)"
    by (induction "items ord") simp_all
  ultimately show ?thesis using assms(1) by (simp only:)
next
  case False
  from add_to_line_None [OF False, of q] assms(2)
  have "items ord' = items ord @ [\<lparr>product = p, quantity = q, price_at_time = price p\<rparr>]"
    by (auto simp: add_item_def OrderItem_init_def split: if_splits)
  with False assms(1) show ?thesis by (simp add: pid_of_def)
qed

text \<open>
  C2.  \<open>add_item\<close> with a product that is available in the requested quantity and whose
  \<open>product_id\<close> already has a line (in an order with one line per product) leaves exactly
  one line for that \<open>product_id\<close>: the old line with the quantity added, its price
  snapshot and every other line untouched.  With a \<open>product_id\<close> not yet in the order
  (and a positive quantity) it appends one line with the given quantity and the product's
  current price.  Adding 2 and then 3 of the same product to an empty order gives one line
  of quantity 5, priced at the first addition.
\<close>

theorem add_item_merges_or_appends:
  "(\<forall>old. is_available p q \<and> distinct (map pid_of (items ord))
        \<and> old \<in> set (items ord) \<and> pid_of old = product_id p \<longrightarrow>
      (\<exists>ord'. add_item ord p q = Inr ord'
         \<and> ord' = ord\<lparr>items := map (\<lambda>i. if pid_of i = product_id p
                                then i\<lparr>quantity := quantity i + q\<rparr> else i) (items ord)\<rparr>
         \<and> filter (\<lambda>i. pid_of i = product_id p) (items ord')
             = [old\<lparr>quantity := quantity old + q\<rparr>]
         \<and> price_at_time (old\<lparr>quantity := quantity old + q\<rparr>) = price_at_time old))
   \<and> (is_available p q \<and> 0 < q \<and> product_id p \<notin> pid_of ` set (items ord) \<longrightarrow>
        add_item ord p q =
          Inr (ord\<lparr>items := items ord
                 @ [\<lparr>product = p, quantity = q, price_at_time = price p\<rparr>]\<rparr>))
   \<and> (\<forall>p'. items ord = [] \<and> is_available p 2 \<and> is_available p' 3
           \<and> product_id p' = product_id p \<longrightarrow>
        (case add_item ord p 2 of Inl e \<Rightarrow> Inl e | Inr ord1 \<Rightarrow> add_item ord1 p' 3)
          = Inr (ord\<lparr>items := [\<lparr>product = p, quantity = 5, price_at_time = price p\<rparr>]\<rparr>))"
proof (intro conjI allI impI)
  fix old
  assume a: "is_available p q \<and> distinct (map pid_of (items ord))
        \<and> old \<in> set (items ord) \<and> pid_of old = product_id p"
  then have a': "is_available p q" "distinct (map pid_of (items ord))"
        "old \<in> set (items ord)" "pid_of old = product_id p" by simp_all
  show "\<exists>ord'. add_item ord p q = Inr ord'
         \<and> ord' = ord\<lparr>items := map (\<lambda>i. if pid_of i = product_id p
                                then i\<lparr>quantity := quantity i + q\<rparr> else i) (items ord)\<rparr>
         \<and> filter (\<lambda>i. pid_of i = product_id p) (items ord')
             = [old\<lparr>quantity := quantity old + q\<rparr>]
         \<and> price_at_time (old\<lparr>quantity := quantity old + q\<rparr>) = price_at_time old"
    using add_item_existing [OF a'] by simp
next
  assume "is_available p q \<and> 0 < q \<and> product_id p \<notin> pid_of ` set (items ord)"
  then show "add_item ord p q =
          Inr (ord\<lparr>items := items ord
                 @ [\<lparr>product = p, quantity = q, price_at_time = price p\<rparr>]\<rparr>)"
    by (simp add: add_item_new)
next
  fix p'
  assume a: "items ord = [] \<and> is_available p 2 \<and> is_available p' 3
           \<and> product_id p' = product_id p"
  then have 1: "add_item ord p 2
      = Inr (ord\<lparr>items := [\<lparr>product = p, quantity = 2, price_at_time = price p\<rparr>]\<rparr>)"
    by (simp add: add_item_new)
  from a have 2: "add_item (ord\<lparr>items := [\<lparr>product = p, quantity = 2, price_at_time = price p\<rparr>]\<rparr>) p' 3
      = Inr (ord\<lparr>items := [\<lparr>product = p, quantity = 5, price_at_time = price p\<rparr>]\<rparr>)"
    by (simp add: add_item_def)
  from 1 2 show "(case add_item ord p 2 of Inl e \<Rightarrow> Inl e | Inr ord1 \<Rightarrow> add_item ord1 p' 3)
          = Inr (ord\<lparr>items := [\<lparr>product = p, quantity = 5, price_at_time = price p\<rparr>]\<rparr>)"
    by simp
qed

theorem add_item_merges_or_appends_witness:
  "add_item test_order test_product1 2
     = Inr (test_order\<lparr>items := [\<lparr>product = test_product1, quantity = 2, price_at_time = 100\<rparr>]\<rparr>)
   \<and> add_item (test_order\<lparr>items := [\<lparr>product = test_product1, quantity = 2, price_at_time = 100\<rparr>]\<rparr>)
        (test_product1\<lparr>price := 150\<rparr>) 3
     = Inr (test_order\<lparr>items := [\<lparr>product = test_product1, quantity = 5, price_at_time = 100\<rparr>]\<rparr>)
   \<and> (case add_item test_order test_product1 2 of Inl e \<Rightarrow> Inl e
       | Inr ord1 \<Rightarrow> add_item ord1 (test_product1\<lparr>price := 150\<rparr>) 3)
     = Inr (test_order\<lparr>items := [\<lparr>product = test_product1, quantity = 5, price_at_time = 100\<rparr>]\<rparr>)"
proof -
  let ?line = "\<lparr>product = test_product1, quantity = 2, price_at_time = 100\<rparr>"
  let ?ord1 = "test_order\<lparr>items := [?line]\<rparr>"
  let ?p' = "test_product1\<lparr>price := 150\<rparr>"
  have e: "items test_order = []"
    by (simp add: test_order_def Order_init_def)
  have av: "is_available test_product1 2" "is_available ?p' 3" "(0::int) < 2"
    by (simp_all add: is_available_def test_product1_def)
  have pr: "price test_product1 = 100" "product_id ?p' = product_id test_product1"
    by (simp_all add: test_product1_def)
  have new: "product_id test_product1 \<notin> pid_of ` set (items test_order)"
    by (simp add: e)
  have old: "distinct (map pid_of (items ?ord1))" "?line \<in> set (items ?ord1)"
      "pid_of ?line = product_id ?p'"
    by (simp_all add: pid_of_def test_product1_def)
  note inst1 = add_item_merges_or_appends [of test_product1 2 test_order]
  note inst2 = add_item_merges_or_appends [of ?p' 3 ?ord1]
  have 1: "add_item test_order test_product1 2 = Inr ?ord1"
    using inst1 [THEN conjunct2, THEN conjunct1, rule_format] av(1,3) new
    by (simp add: e pr)
  have "\<exists>ord'. add_item ?ord1 ?p' 3 = Inr ord'
         \<and> ord' = ?ord1\<lparr>items := map (\<lambda>i. if pid_of i = product_id ?p'
                                then i\<lparr>quantity := quantity i + 3\<rparr> else i) (items ?ord1)\<rparr>
         \<and> filter (\<lambda>i. pid_of i = product_id ?p') (items ord')
             = [?line\<lparr>quantity := quantity ?line + 3\<rparr>]
         \<and> price_at_time (?line\<lparr>quantity := quantity ?line + 3\<rparr>) = price_at_time ?line"
    using inst2 [THEN conjunct1, rule_format, of ?line] av(2) old by blast
  then have 2: "add_item ?ord1 ?p' 3
     = Inr (test_order\<lparr>items := [\<lparr>product = test_product1, quantity = 5, price_at_time = 100\<rparr>]\<rparr>)"
    by (auto simp: pid_of_def test_product1_def)
  have 3: "(case add_item test_order test_product1 2 of Inl e \<Rightarrow> Inl e
       | Inr ord1 \<Rightarrow> add_item ord1 ?p' 3)
     = Inr (test_order\<lparr>items := [\<lparr>product = test_product1, quantity = 5, price_at_time = 100\<rparr>]\<rparr>)"
    using inst1 [THEN conjunct2, THEN conjunct2, rule_format, of ?p'] e av(1,2) pr
    by simp
  from 1 2 3 show ?thesis by simp
qed

text \<open>
  C3.  The constructor of \<open>OrderItem\<close> rejects a quantity \<open>\<le> 0\<close>, and so does
  \<open>add_item\<close> for a product that is new to the order.  For a product that already has a
  line, \<open>add_item\<close> returns before any check of the quantity: adding \<open>-5\<close> to a line
  of 2 succeeds and leaves a line of quantity \<open>-3\<close>, and adding 0 succeeds as well.
\<close>

theorem add_item_nonpositive_quantity:
  "OrderItem_init test_product1 0 None = Inl (ValueError Nonpositive_quantity)
   \<and> add_item test_order test_product1 (-5) = Inl (ValueError Nonpositive_quantity)
   \<and> add_item (test_order\<lparr>items := [\<lparr>product = test_product1, quantity = 2, price_at_time = 100\<rparr>]\<rparr>)
        test_product1 (-5)
     = Inr (test_order\<lparr>items := [\<lparr>product = test_product1, quantity = -3, price_at_time = 100\<rparr>]\<rparr>)
   \<and> add_item (test_order\<lparr>items := [\<lparr>product = test_product1, quantity = 2, price_at_time = 100\<rparr>]\<rparr>)
        test_product1 0
     = Inr (test_order\<lparr>items := [\<lparr>product = test_product1, quantity = 2, price_at_time = 100\<rparr>]\<rparr>)"
  by (simp add: OrderItem_init_def add_item_def is_available_def test_product1_def
      test_order_def Order_init_def)

section \<open>Validation of customers\<close>

lemma reps_iff:
  "t \<in> set (reps P lo hi s) \<longleftrightarrow>
     (\<exists>w. s = w @ t \<and> list_all P w \<and> lo \<le> length w
          \<and> (case hi of None \<Rightarrow> True | Some h \<Rightarrow> length w \<le> h))"
proof (induction s arbitrary: lo hi)
  case Nil
  then show ?case by (auto split: option.splits)
next
  case (Cons c s)
  show ?case (is "?L \<longleftrightarrow> ?R")
  proof
    assume ?L
    then consider "lo = 0" "t = c # s"
      | "P c" "hi \<noteq> Some 0" "t \<in> set (reps P (lo - 1) (map_option (\<lambda>h. h - 1) hi) s)"
      by (auto split: if_splits)
    then show ?R
    proof cases
      case 1
      then have "c # s = [] @ t \<and> list_all P [] \<and> lo \<le> length ([]::string)
          \<and> (case hi of None \<Rightarrow> True | Some h \<Rightarrow> length ([]::string) \<le> h)"
        by (simp split: option.splits)
      then show ?thesis by blast
    next
      case 2
      from 2(3) obtain w where w: "s = w @ t" "list_all P w" "lo - 1 \<le> length w"
        "(case map_option (\<lambda>h. h - 1) hi of None \<Rightarrow> True | Some h \<Rightarrow> length w \<le> h)"
        unfolding Cons.IH by blast
      have "c # s = (c # w) @ t \<and> list_all P (c # w) \<and> lo \<le> length (c # w)
          \<and> (case hi of None \<Rightarrow> True | Some h \<Rightarrow> length (c # w) \<le> h)"
        using w 2(1,2) by (auto split: option.splits)
      then show ?thesis by blast
    qed
  next
    assume ?R
    then obtain w where w: "c # s = w @ t" "list_all P w" "lo \<le> length w"
        "(case hi of None \<Rightarrow> True | Some h \<Rightarrow> length w \<le> h)"
      by blast
    show ?L
    proof (cases w)
      case Nil
      with w have "t = c # s" "lo = 0" by auto
      then show ?thesis by simp
    next
      case (Cons a w')
      with w have a: "a = c" "s = w' @ t" "P c" "list_all P w'" "lo - 1 \<le> length w'"
        by auto
      from w(4) Cons have h: "hi \<noteq> Some 0"
        "(case map_option (\<lambda>h. h - 1) hi of None \<Rightarrow> True | Some h \<Rightarrow> length w' \<le> h)"
        by (auto split: option.splits)
      from a h have "t \<in> set (reps P (lo - 1) (map_option (\<lambda>h. h - 1) hi) s)"
        unfolding Cons.IH by blast
      with a h show ?thesis by simp
    qed
  qed
qed


lemma rems_lang: "t \<in> set (rems r s) \<longleftrightarrow> (\<exists>w \<in> lang r. s = w @ t)"
proof (induction r arbitrary: s t)
  case (Lit l)
  have "take (length l) s = l \<and> t = drop (length l) s \<longleftrightarrow> s = l @ t"
  proof
    assume a: "take (length l) s = l \<and> t = drop (length l) s"
    have "s = take (length l) s @ drop (length l) s" by simp
    with a show "s = l @ t" by simp
  qed simp
  then show ?case by auto
next
  case (Class P lo hi)
  show ?case by (simp add: reps_iff Bex_def conj_commute conj_left_commute)
next
  case (Alt a b)
  then show ?case by auto
next
  case (Seq a b)
  have "t \<in> set (rems (Seq a b) s) \<longleftrightarrow> (\<exists>u \<in> set (rems a s). t \<in> set (rems b u))"
    by auto
  also have "\<dots> \<longleftrightarrow> (\<exists>u. (\<exists>w \<in> lang a. s = w @ u) \<and> (\<exists>v \<in> lang b. u = v @ t))"
    by (simp only: Bex_def Seq.IH)
  also have "\<dots> \<longleftrightarrow> (\<exists>w \<in> lang (Seq a b). s = w @ t)"
  proof
    assume "\<exists>u. (\<exists>w \<in> lang a. s = w @ u) \<and> (\<exists>v \<in> lang b. u = v @ t)"
    then obtain u w v where "w \<in> lang a" "s = w @ u" "v \<in> lang b" "u = v @ t"
      by blast
    then have "w @ v \<in> lang (Seq a b)" "s = (w @ v) @ t" by auto
    then show "\<exists>w \<in> lang (Seq a b). s = w @ t" by blast
  next
    assume "\<exists>w \<in> lang (Seq a b). s = w @ t"
    then obtain w v where "w \<in> lang a" "v \<in> lang b" "s = (w @ v) @ t" by auto
    then have "(\<exists>w \<in> lang a. s = w @ (v @ t)) \<and> (\<exists>v' \<in> lang b. v @ t = v' @ t)"
      by auto
    then show "\<exists>u. (\<exists>w \<in> lang a. s = w @ u) \<and> (\<exists>v \<in> lang b. u = v @ t)" by blast
  qed
  finally show ?case .
qed

lemma re_match_lang:
  "re_match r s \<longleftrightarrow> s \<in> lang r \<or> (\<exists>s'. s = s' @ [newline] \<and> s' \<in> lang r)"
  unfolding re_match_def list_ex_iff at_end_def
  using rems_lang [of "[]" r s] rems_lang [of "[newline]" r s] by auto

lemma lang_Class_plus: "w \<in> lang (Class P 1 None) \<longleftrightarrow> w \<noteq> [] \<and> list_all P w"
  by (cases w) auto

lemma lang_Seq_iff: "s \<in> lang (Seq a b) \<longleftrightarrow> (\<exists>u v. s = u @ v \<and> u \<in> lang a \<and> v \<in> lang b)"
  by auto

lemma lang_Lit_iff: "s \<in> lang (Lit l) \<longleftrightarrow> s = l"
  by simp

lemma lang_email: "e \<in> lang email_pattern \<longleftrightarrow> email_shape e"
proof -
  have "e \<in> lang email_pattern \<longleftrightarrow>
    (\<exists>u v. e = u @ v \<and> (u \<noteq> [] \<and> list_all local_char u) \<and>
      (\<exists>u2 v2. v = u2 @ v2 \<and> u2 = ''@'' \<and>
        (\<exists>u3 v3. v2 = u3 @ v3 \<and> (u3 \<noteq> [] \<and> list_all domain_char u3) \<and>
          (\<exists>u4 v4. v3 = u4 @ v4 \<and> u4 = ''.'' \<and>
             (list_all is_alpha v4 \<and> 2 \<le> length v4)))))"
    unfolding email_pattern_def lang_Seq_iff lang_Class_plus lang_Lit_iff
    by simp
  also have "\<dots> \<longleftrightarrow> email_shape e"
    unfolding email_shape_def by (simp del: append_assoc) blast
  finally show ?thesis .
qed

lemma lang_phone: "p \<in> lang phone_pattern \<longleftrightarrow> phone_shape p"
proof -
  have "p \<in> lang phone_pattern \<longleftrightarrow>
     (\<exists>u v. p = u @ v \<and> (u = ''+7'' \<or> u = ''8'')
         \<and> list_all phone_char v \<and> 10 \<le> length v \<and> length v \<le> 15)"
    unfolding phone_pattern_def lang_Seq_iff by auto
  also have "\<dots> \<longleftrightarrow> phone_shape p"
    unfolding phone_shape_def by blast
  finally show ?thesis .
qed

lemma newline_clean_phone: "newline \<notin> set (clean_phone p)"
  by (simp add: clean_phone_def newline_def is_digit_def in_range_def)

lemma re_match_clean_phone:
  "re_match phone_pattern (clean_phone p) \<longleftrightarrow> phone_shape (clean_phone p)"
proof -
  have "\<not> (\<exists>s'. clean_phone p = s' @ [newline] \<and> s' \<in> lang phone_pattern)"
    using newline_clean_phone [of p] by (metis in_set_conv_decomp)
  then show ?thesis unfolding re_match_lang lang_phone by blast
qed

lemma re_match_email:
  "e = [] \<or> last e \<noteq> newline \<Longrightarrow> re_match email_pattern e \<longleftrightarrow> email_shape e"
  by (auto simp: re_match_lang lang_email)

text \<open>
  C9 (as amended).  For an email without a trailing newline, the constructor of
  \<open>Customer\<close> succeeds exactly when the email has the shape \<open>local@domain.tld\<close> and the
  phone, after every character other than a digit, \<open>+\<close>, \<open>(\<close> and \<open>)\<close> has been
  removed from it, is \<open>+7\<close> or \<open>8\<close> followed by 10 to 15 digit or punctuation
  characters; it then stores the email and the phone as supplied.  Otherwise it raises the
  email error, or the phone error when only the phone fails.
\<close>

theorem Customer_init_validation:
  assumes "em = [] \<or> last em \<noteq> newline"
  shows "(email_shape em \<and> phone_shape (clean_phone ph) \<longrightarrow>
            Customer_init cid nm em ph addr ct =
              Inr \<lparr>customer_id = cid, customer_name = nm, email = em, phone = ph,
                    address = addr, city = ct\<rparr>)
       \<and> (\<not> email_shape em \<longrightarrow>
            Customer_init cid nm em ph addr ct = Inl (ValueError Bad_email))
       \<and> (email_shape em \<and> \<not> phone_shape (clean_phone ph) \<longrightarrow>
            Customer_init cid nm em ph addr ct = Inl (ValueError Bad_phone))"
  using re_match_email [OF assms] re_match_clean_phone [of ph]
  by (simp add: Customer_init_def validate_email_def validate_phone_def)

lemmas char_class_defs =
  local_char_def domain_char_def phone_char_def is_alpha_def is_digit_def is_space_def
  in_range_def newline_def

theorem Customer_init_validation_witness:
  "Customer_init 1 ''Test'' ''test@example.com'' ''+7(999)123-45-67'' [] [] = Inr test_customer
   \<and> Customer_init 1 ''Test'' ''invalid-email'' ''+7(999)123-45-67'' [] []
       = Inl (ValueError Bad_email)
   \<and> Customer_init 1 ''Test'' ''test@example.com'' ''123'' [] [] = Inl (ValueError Bad_phone)"
proof -
  have nl: "''test@example.com'' = [] \<or> last ''test@example.com'' \<noteq> newline"
    "''invalid-email'' = [] \<or> last ''invalid-email'' \<noteq> newline"
    by (simp_all add: newline_def)
  have "re_match email_pattern ''test@example.com''"
    by (simp add: re_match_def email_pattern_def at_end_def char_class_defs)
  with re_match_email [OF nl(1)] have e1: "email_shape ''test@example.com''" by simp
  have "\<not> re_match email_pattern ''invalid-email''"
    by (simp add: re_match_def email_pattern_def at_end_def char_class_defs)
  with re_match_email [OF nl(2)] have e2: "\<not> email_shape ''invalid-email''" by simp
  have "re_match phone_pattern (clean_phone ''+7(999)123-45-67'')"
    by (simp add: re_match_def phone_pattern_def clean_phone_def at_end_def char_class_defs)
  then have p1: "phone_shape (clean_phone ''+7(999)123-45-67'')"
    by (simp add: re_match_clean_phone)
  have "\<not> re_match phone_pattern (clean_phone ''123'')"
    by (simp add: re_match_def phone_pattern_def clean_phone_def at_end_def char_class_defs)
  then have p2: "\<not> phone_shape (clean_phone ''123'')"
    by (simp add: re_match_clean_phone)
  from Customer_init_validation [OF nl(1), of "''+7(999)123-45-67''" 1 "''Test''" "[]" "[]"]
    Customer_init_validation [OF nl(2), of "''+7(999)123-45-67''" 1 "''Test''" "[]" "[]"]
    Customer_init_validation [OF nl(1), of "''123''" 1 "''Test''" "[]" "[]"]
    e1 e2 p1 p2
  show ?thesis by (simp add: test_customer_def)
qed

text \<open>
  The phone is matched after cleaning, not as supplied: \<open>+7 (999) 123-45-67\<close> has 16
  characters after the prefix and is accepted, \<open>+7 999 123 45 6\<close> has 13 and is
  rejected, for it has 9 digits only.
\<close>

theorem Customer_init_phone_counterexample:
  "\<not> phone_shape ''+7 (999) 123-45-67''
   \<and> email_shape ''test@example.com''
   \<and> Customer_init 1 ''Test'' ''test@example.com'' ''+7 (999) 123-45-67'' [] []
       = Inr \<lparr>customer_id = 1, customer_name = ''Test'', email = ''test@example.com'',
              phone = ''+7 (999) 123-45-67'', address = [], city = []\<rparr>
   \<and> phone_shape ''+7 999 123 45 6''
   \<and> Customer_init 1 ''Test'' ''test@example.com'' ''+7 999 123 45 6'' [] []
       = Inl (ValueError Bad_phone)"
proof -
  have "\<not> re_match phone_pattern ''+7 (999) 123-45-67''"
    by (simp add: re_match_def phone_pattern_def at_end_def char_class_defs)
  then have 1: "\<not> phone_shape ''+7 (999) 123-45-67''"
    by (simp add: re_match_lang lang_phone)
  have "re_match email_pattern ''test@example.com''"
    by (simp add: re_match_def email_pattern_def at_end_def char_class_defs)
  then have 2: "email_shape ''test@example.com''"
    by (simp add: re_match_lang lang_email newline_def)
  have 3: "Customer_init 1 ''Test'' ''test@example.com'' ''+7 (999) 123-45-67'' [] []
       = Inr \<lparr>customer_id = 1, customer_name = ''Test'', email = ''test@example.com'',
              phone = ''+7 (999) 123-45-67'', address = [], city = []\<rparr>"
    by (simp add: Customer_init_def validate_email_def validate_phone_def clean_phone_def
        re_match_def email_pattern_def phone_pattern_def at_end_def char_class_defs)
  have "re_match phone_pattern ''+7 999 123 45 6''"
    by (simp add: re_match_def phone_pattern_def at_end_def char_class_defs)
  then have 4: "phone_shape ''+7 999 123 45 6''"
    by (simp add: re_match_lang lang_phone newline_def)
  have 5: "Customer_init 1 ''Test'' ''test@example.com'' ''+7 999 123 45 6'' [] []
       = Inl (ValueError Bad_phone)"
    by (simp add: Customer_init_def validate_email_def validate_phone_def clean_phone_def
        re_match_def email_pattern_def phone_pattern_def at_end_def char_class_defs)
  from 1 2 3 4 5 show ?thesis by blast
qed

section \<open>The sorting utilities are stable sorts\<close>




lemma date_lt_key: "date_lt a b \<longleftrightarrow> dt_key a < dt_key b"
  by (simp add: date_lt_def)

















lemma dir_sorted_Nil: "dir_sorted f reverse []"
  by (simp add: dir_sorted_def)













section \<open>Sales dynamics\<close>

lemma sum_list_indicator:
  fixes v :: "'b::comm_monoid_add"
  shows "distinct ks \<Longrightarrow> k \<in> set ks \<Longrightarrow> sum_list (map (\<lambda>k'. if k = k' then v else 0) ks) = v"
proof (induction ks)
  case Nil then show ?case by simp
next
  case (Cons a ks)
  show ?case
  proof (cases "k = a")
    case True
    with Cons.prems have "k \<notin> set ks" by simp
    then have "sum_list (map (\<lambda>k'. if k = k' then v else 0) ks) = 0"
      by (induction ks) auto
    with True show ?thesis by simp
  next
    case False
    with Cons show ?thesis by simp
  qed
qed

lemma sum_list_groups:
  fixes f :: "'r \<Rightarrow> 'b::comm_monoid_add"
  assumes "distinct ks" "key ` set rows \<subseteq> set ks"
  shows "sum_list (map (\<lambda>k. sum_list (map f (filter (\<lambda>r. key r = k) rows))) ks)
       = sum_list (map f rows)"
  using assms(2)
proof (induction rows)
  case Nil
  show ?case by (induction ks) simp_all
next
  case (Cons r rows)
  have "sum_list (map (\<lambda>k. sum_list (map f (filter (\<lambda>r. key r = k) (r # rows)))) ks)
      = sum_list (map (\<lambda>k. (if key r = k then f r else 0)
           + sum_list (map f (filter (\<lambda>r. key r = k) rows))) ks)"
    by (rule arg_cong [where f = sum_list]) (rule map_cong, simp_all)
  also have "\<dots> = sum_list (map (\<lambda>k. if key r = k then f r else 0) ks)
      + sum_list (map (\<lambda>k. sum_list (map f (filter (\<lambda>r. key r = k) rows))) ks)"
    by (rule sum_list_addf)
  also have "sum_list (map (\<lambda>k. if key r = k then f r else 0) ks) = f r"
    using assms(1) Cons.prems by (intro sum_list_indicator) auto
  also have "sum_list (map (\<lambda>k. sum_list (map f (filter (\<lambda>r. key r = k) rows))) ks)
      = sum_list (map f rows)"
    using Cons.prems by (intro Cons.IH) auto
  finally show ?case by simp
qed

lemma groupby_sum:
  fixes f :: "'r \<Rightarrow> 'b::comm_monoid_add"
  shows "sum_list (map (\<lambda>(k, grp). sum_list (map f grp)) (groupby key ord rows))
       = sum_list (map f rows)"
proof -
  have "sum_list (map (\<lambda>(k, grp). sum_list (map f grp)) (groupby key ord rows))
      = sum_list (map (\<lambda>k. sum_list (map f (filter (\<lambda>r. key r = k) rows)))
          (sort_key ord (remdups (map key rows))))"
    by (simp add: groupby_def o_def)
  also have "\<dots> = sum_list (map f rows)"
    by (rule sum_list_groups) simp_all
  finally show ?thesis .
qed

lemma groupby_subset: "(k, grp) \<in> set (groupby key ord rows) \<Longrightarrow> set grp \<subseteq> set rows"
  by (auto simp: groupby_def)

lemma nansum_no_nan: "\<forall>x \<in> set xs. x \<noteq> NaN \<Longrightarrow> nansum xs = sum_list xs"
proof -
  assume "\<forall>x \<in> set xs. x \<noteq> NaN"
  then have "filter (\<lambda>x. x \<noteq> NaN) xs = xs"
    by (simp only: filter_id_conv)
  then show ?thesis by (simp add: nansum_def)
qed

lemma sum_list_Fin: "\<forall>x \<in> set xs. \<exists>r. x = Fin r \<Longrightarrow> \<exists>r. sum_list xs = Fin r"
proof (induction xs)
  case Nil
  have "sum_list ([] :: pyfloat list) = Fin 0" by simp
  then show ?case ..
next
  case (Cons x xs)
  then obtain a b where "x = Fin a" "sum_list xs = Fin b" by auto
  then have "sum_list (x # xs) = Fin (a + b)" by simp
  then show ?case ..
qed

lemma whole_item_total: "whole (price_at_time i) \<Longrightarrow> \<exists>r. item_total i = Fin r"
  by (cases "price_at_time i") (simp_all add: item_total_def float_of_int_def)

lemma exact_sums_total:
  assumes "exact_sums orders" "x \<in> set orders"
  shows "get_total x \<noteq> NaN"
proof -
  from assms have "\<forall>i \<in> set (items x). whole (price_at_time i)"
    by (auto simp: exact_sums_def list_all_iff)
  then have "\<forall>t \<in> set (map item_total (items x)). \<exists>r. t = Fin r"
    by (auto dest: whole_item_total)
  from sum_list_Fin [OF this] show ?thesis
    by (auto simp: get_total_def)
qed

text \<open>
  C5.  For every collection of orders on which the float arithmetic is exact
  (\<open>exact_sums\<close>) and every grouping selector, the \<open>total_revenue\<close> column of
  \<open>get_sales_dynamics\<close> sums to the sum of the order totals.  The hypothesis confines the
  statement to the inputs on which the additions of the code round nothing, as those of
  the model never do.
\<close>

theorem sales_dynamics_conserves_revenue:
  assumes "exact_sums orders"
  shows "sum_list (map total_revenue (get_sales_dynamics orders sel))
     = sum_list (map get_total orders)"
proof (cases "orders = []")
  case True
  then show ?thesis by (simp add: get_sales_dynamics_def create_orders_dataframe_def)
next
  case False
  let ?df = "create_orders_dataframe orders"
  let ?key = "\<lambda>r. period_of sel (row_order_date r)"
  have rows: "\<forall>r \<in> set ?df. row_total r \<noteq> NaN"
    using exact_sums_total [OF assms] by (auto simp: create_orders_dataframe_def)
  have grp: "nansum (map row_total (snd g)) = sum_list (map row_total (snd g))"
    if "g \<in> set (groupby ?key period_key ?df)" for g
  proof -
    from that have "set (snd g) \<subseteq> set ?df"
      using groupby_subset [of "fst g" "snd g" ?key period_key ?df] by simp
    with rows have "\<forall>x \<in> set (map row_total (snd g)). x \<noteq> NaN" by auto
    then show ?thesis by (rule nansum_no_nan)
  qed
  from False have "sum_list (map total_revenue (get_sales_dynamics orders sel))
      = sum_list (map (\<lambda>g. nansum (map row_total (snd g))) (groupby ?key period_key ?df))"
    by (simp add: get_sales_dynamics_def create_orders_dataframe_def o_def case_prod_unfold)
  also have "\<dots>
      = sum_list (map (\<lambda>g. sum_list (map row_total (snd g))) (groupby ?key period_key ?df))"
    using grp by (intro arg_cong [where f = sum_list] map_cong) simp_all
  also have "\<dots>
      = sum_list (map (\<lambda>(k, grp). sum_list (map row_total grp)) (groupby ?key period_key ?df))"
    by (simp add: case_prod_unfold)
  also have "\<dots> = sum_list (map row_total ?df)"
    by (rule groupby_sum)
  also have "\<dots> = sum_list (map get_total orders)"
    by (simp add: create_orders_dataframe_def o_def)
  finally show ?thesis .
qed

theorem sales_dynamics_conserves_revenue_witness:
  "exact_sums shop_orders
   \<and> sum_list (map total_revenue (get_sales_dynamics shop_orders ''monthly'')) = 61000
   \<and> sum_list (map get_total shop_orders) = 61000"
proof -
  have e: "exact_sums shop_orders"
    by (simp add: exact_sums_def shop_orders_def shop_products_def order_of_def cust_def
        item_total_def float_of_int_def)
  have t: "sum_list (map get_total shop_orders) = 61000"
    by (simp add: shop_orders_def shop_products_def order_of_def cust_def get_total_def
        item_total_def float_of_int_def)
  from sales_dynamics_conserves_revenue [OF e, of "''monthly''"] e t
  show ?thesis by simp
qed

text \<open>
  An order with the total NaN makes the two sums differ: the sum of the order totals is
  NaN, while the data-frame library leaves the NaN entry out of the sum of its group.
\<close>

theorem sales_dynamics_nan_counterexample:
  "sum_list (map total_revenue (get_sales_dynamics nan_orders ''daily'')) = 100
   \<and> sum_list (map get_total nan_orders) = NaN
   \<and> sum_list (map total_revenue (get_sales_dynamics nan_orders ''daily''))
       \<noteq> sum_list (map get_total nan_orders)"
proof -
  have t: "map get_total nan_orders = [NaN, 100]"
    by (simp add: nan_orders_def test_order_def Order_init_def get_total_def
        item_total_def float_of_int_def)
  have d: "map order_date nan_orders = [date_of 2023 1 15, date_of 2023 1 15]"
    by (simp add: nan_orders_def test_order_def Order_init_def)
  have r: "map row_total (create_orders_dataframe nan_orders) = [NaN, 100]"
    "map row_order_date (create_orders_dataframe nan_orders)
       = [date_of 2023 1 15, date_of 2023 1 15]"
    using t d by (simp_all add: create_orders_dataframe_def o_def)
  obtain a b where df: "create_orders_dataframe nan_orders = [a, b]"
    by (simp add: create_orders_dataframe_def nan_orders_def)
  from r have ab: "row_total a = NaN" "row_total b = Fin 100"
    "row_order_date a = date_of 2023 1 15" "row_order_date b = date_of 2023 1 15"
    by (simp_all add: df)
  have "map total_revenue (get_sales_dynamics nan_orders ''daily'') = [100]"
    by (simp add: get_sales_dynamics_def df ab groupby_def period_of_def date_of_def
        nansum_def)
  then have l: "sum_list (map total_revenue (get_sales_dynamics nan_orders ''daily'')) = 100"
    by simp
  from t have s: "sum_list (map get_total nan_orders) = NaN"
    by simp
  from l s show ?thesis by simp
qed

text \<open>
  C10.  \<open>get_sales_dynamics\<close> accepts every selector: any string other than
  \<open>weekly\<close> and \<open>monthly\<close> gives the result of \<open>daily\<close>.
\<close>

theorem unknown_period_is_daily:
  assumes "sel \<noteq> ''weekly''" and "sel \<noteq> ''monthly''"
  shows "get_sales_dynamics orders sel = get_sales_dynamics orders ''daily''"
proof -
  have "period_of sel d = period_of ''daily'' d" for d
    using assms by (simp add: period_of_def)
  then show ?thesis
    by (simp add: get_sales_dynamics_def Let_def)
qed

lemmas sales_eval_defs =
  get_sales_dynamics_def create_orders_dataframe_def groupby_def period_of_def period_key_def
  sample_orders_def date_of_def get_total_def get_items_count_def item_total_def
  float_of_int_def nansum_def
  toordinal_def weekday_def days_before_year_def days_before_month_def is_leap_def
  test_customer_def test_product1_def test_product2_def Let_def

lemma sales_daily_example:
  "get_sales_dynamics sample_orders ''daily'' =
     [\<lparr>period = Day 2023 1 10, orders_count = 1, total_revenue = 100, total_items = 1\<rparr>,
      \<lparr>period = Day 2023 1 15, orders_count = 2, total_revenue = 500, total_items = 4\<rparr>]"
  by (simp add: sales_eval_defs)

lemma sales_weekly_example:
  "get_sales_dynamics sample_orders ''weekly'' =
     [\<lparr>period = Week 738529, orders_count = 3, total_revenue = 600, total_items = 5\<rparr>]"
  by (simp add: sales_eval_defs)

theorem unknown_period_is_daily_witness:
  "''Weekly'' \<noteq> ''weekly'' \<and> ''Weekly'' \<noteq> ''monthly''
   \<and> get_sales_dynamics sample_orders ''Weekly'' = get_sales_dynamics sample_orders ''daily''
   \<and> get_sales_dynamics sample_orders ''Weekly'' =
     [\<lparr>period = Day 2023 1 10, orders_count = 1, total_revenue = 100, total_items = 1\<rparr>,
      \<lparr>period = Day 2023 1 15, orders_count = 2, total_revenue = 500, total_items = 4\<rparr>]"
proof -
  have h: "''Weekly'' \<noteq> ''weekly''" "''Weekly'' \<noteq> ''monthly''" by simp_all
  from unknown_period_is_daily [OF h, of sample_orders] sales_daily_example h
  show ?thesis by simp
qed

section \<open>The shared-purchase graph\<close>

lemma map_of_dict_set: "map_of (dict_set k v d) = (map_of d)(k \<mapsto> v)"
  by (induction d) (auto simp: fun_eq_iff)

lemma keys_dict_set: "fst ` set (dict_set k v d) = insert k (fst ` set d)"
  using arg_cong [OF map_of_dict_set [of k v d], of dom]
  by (simp add: dom_map_of_conv_image_fst)

lemma distinct_dict_set: "distinct (map fst d) \<Longrightarrow> distinct (map fst (dict_set k v d))"
proof (induction d)
  case Nil then show ?case by simp
next
  case (Cons a d)
  obtain k' v' where a: "a = (k', v')" by (cases a)
  show ?case
  proof (cases "k' = k")
    case True
    with Cons.prems a show ?thesis by simp
  next
    case False
    have "k' \<notin> fst ` set (dict_set k v d)"
      using Cons.prems a False by (simp add: keys_dict_set)
    with Cons a False show ?thesis by simp
  qed
qed

lemma members_np:
  "members (np pc (c, p)) p' = members pc p' \<union> (if p' = p then {c} else {})"
  by (auto simp: members_def np_def dict_get_def map_of_dict_set split: option.splits)

lemma wf_np: "wf_pc pc \<Longrightarrow> wf_pc (np pc (c, p))"
  by (auto simp: wf_pc_def np_def dict_get_def map_of_dict_set distinct_dict_set
      split: option.splits)

lemma foldl_np:
  "wf_pc pc \<Longrightarrow>
   wf_pc (foldl np pc ps) \<and>
   (\<forall>p. members (foldl np pc ps) p = members pc p \<union> {c. (c, p) \<in> set ps})"
proof (induction ps arbitrary: pc)
  case Nil
  then show ?case by simp
next
  case (Cons a ps)
  obtain c p where a: "a = (c, p)" by (cases a)
  from Cons.prems have w: "wf_pc (np pc (c, p))" by (rule wf_np)
  from Cons.IH [OF w] a show ?case
    by (auto simp: members_np split: if_splits)
qed

lemma note_purchase_np: "note_purchase cid pc item = np pc (cid, pid_of item)"
  by (simp add: note_purchase_def np_def pid_of_def Let_def)

lemma foldl_note_purchase:
  "foldl (note_purchase cid) pc its = foldl np pc (map (\<lambda>i. (cid, pid_of i)) its)"
  by (induction its arbitrary: pc) (simp_all add: note_purchase_np)

lemma product_customers_foldl:
  "foldl (\<lambda>pc ord. foldl (note_purchase (customer_id (customer ord))) pc (items ord)) pc orders
     = foldl np pc (purchases orders)"
  by (induction orders arbitrary: pc) (simp_all add: purchases_def foldl_note_purchase)

lemma purchases_bought: "(c, p) \<in> set (purchases orders) \<longleftrightarrow> bought orders c p"
  by (auto simp: purchases_def bought_def list_ex_iff)

lemma product_customers_members:
  "wf_pc (product_customers orders)"
  "members (product_customers orders) p = {c. bought orders c p}"
proof -
  have w: "wf_pc []" by (simp add: wf_pc_def dict_get_def)
  have e: "members [] p = {}" by (simp add: members_def dict_get_def)
  from foldl_np [OF w, of "purchases orders"]
  show "wf_pc (product_customers orders)"
    "members (product_customers orders) p = {c. bought orders c p}"
    by (simp_all add: product_customers_def product_customers_foldl e purchases_bought)
qed

lemma fun_upd2_apply:
  "(f(x \<mapsto> w, y \<mapsto> w)) z = (if z = x \<or> z = y then Some w else f z)"
  by simp

lemma joins_sym: "joins e u v = joins e v u"
  by (auto simp: joins_def)

lemma adj_bump:
  "adj (bump_weight g (a, b)) (u, v) =
     (if joins (a, b) u v then Some (weight_of g a b + 1) else adj g (u, v))"
proof -
  have "adj (bump_weight g (a, b)) =
     (adj g)((a, b) \<mapsto> weight_of g a b + 1, (b, a) \<mapsto> weight_of g a b + 1)"
    by (simp add: bump_weight_def add_edge_def weight_of_def split: option.splits)
  moreover have "((u, v) = (a, b) \<or> (u, v) = (b, a)) = joins (a, b) u v"
    by (auto simp: joins_def)
  ultimately show ?thesis
    by (simp only: fun_upd2_apply)
qed

lemma good_bump:
  assumes "good g"
  shows "good (bump_weight g e)"
proof -
  obtain a b where e: "e = (a, b)" by (cases e)
  from assms have sym: "\<And>u v. adj g (u, v) = adj g (v, u)"
    and pos: "\<And>e w. adj g e = Some w \<Longrightarrow> 0 < w"
    by (auto simp: good_def)
  have w0: "0 \<le> weight_of g a b"
  proof (cases "adj g (a, b)")
    case None
    then show ?thesis by (simp add: weight_of_def)
  next
    case (Some w)
    with pos [of "(a, b)" w] show ?thesis by (simp add: weight_of_def)
  qed
  have "adj (bump_weight g e) (u, v) = adj (bump_weight g e) (v, u)" for u v
    unfolding e adj_bump joins_sym [of "(a, b)" v u] using sym [of u v] by simp
  moreover have "0 < w" if "adj (bump_weight g e) e' = Some w" for e' w
  proof -
    obtain u v where e': "e' = (u, v)" by (cases e')
    show ?thesis
    proof (cases "joins (a, b) u v")
      case True
      with that w0 show ?thesis unfolding e e' adj_bump by simp
    next
      case False
      with that pos [of e' w] show ?thesis unfolding e e' adj_bump by simp
    qed
  qed
  ultimately show ?thesis unfolding good_def by blast
qed

lemma weight_bump:
  assumes "good g"
  shows "weight_of (bump_weight g e) u v = weight_of g u v + (if joins e u v then 1 else 0)"
proof -
  obtain a b where e: "e = (a, b)" by (cases e)
  from assms have sym: "adj g (b, a) = adj g (a, b)" by (simp add: good_def)
  then have wsym: "weight_of g b a = weight_of g a b" by (simp add: weight_of_def)
  show ?thesis
  proof (cases "joins (a, b) u v")
    case True
    then have "(u = a \<and> v = b) \<or> (u = b \<and> v = a)" by (auto simp: joins_def)
    then have "weight_of g u v = weight_of g a b" using wsym by blast
    with True show ?thesis
      unfolding e by (simp add: weight_of_def [of "bump_weight g (a, b)"] adj_bump)
  next
    case False
    then show ?thesis
      unfolding e by (simp add: weight_of_def adj_bump)
  qed
qed

lemma foldl_bump:
  "good g \<Longrightarrow>
   good (foldl bump_weight g es) \<and>
   (\<forall>u v. weight_of (foldl bump_weight g es) u v
      = weight_of g u v + int (length (filter (\<lambda>e. joins e u v) es)))"
proof (induction es arbitrary: g)
  case Nil
  then show ?case by simp
next
  case (Cons e es)
  from Cons.prems have g': "good (bump_weight g e)" by (rule good_bump)
  from Cons.IH [OF g'] weight_bump [OF Cons.prems, of e]
  show ?case by simp
qed

lemma good_has_edge:
  assumes "good g"
  shows "adj g (u, v) = (if weight_of g u v = 0 then None else Some (weight_of g u v))"
proof (cases "adj g (u, v)")
  case None
  then show ?thesis by (simp add: weight_of_def)
next
  case (Some w)
  with assms have "0 < w" unfolding good_def by blast
  with Some show ?thesis by (simp add: weight_of_def)
qed

lemma nodes_bump: "dom (nodes g) \<subseteq> dom (nodes (bump_weight g e))"
  by (cases e) (auto simp: bump_weight_def add_edge_def touch_node_def split: option.splits)

lemma nodes_foldl_bump: "dom (nodes g) \<subseteq> dom (nodes (foldl bump_weight g es))"
proof (induction es arbitrary: g)
  case Nil show ?case by simp
next
  case (Cons e es)
  from nodes_bump [of g e] Cons.IH [of "bump_weight g e"] show ?case by auto
qed

lemma foldl_pairs:
  "foldl (\<lambda>g (pid, customers_list). foldl bump_weight g (pairs_of customers_list)) g pc
     = foldl bump_weight g (concat (map (\<lambda>(pid, l). pairs_of l) pc))"
  by (induction pc arbitrary: g) (simp_all add: case_prod_unfold)

lemma count_one:
  "distinct xs \<Longrightarrow> length (filter (\<lambda>y. y = v) xs) = (if v \<in> set xs then 1 else 0)"
  by (induction xs) auto

lemma count_none: "(\<And>y. y \<in> set xs \<Longrightarrow> \<not> P y) \<Longrightarrow> length (filter P xs) = 0"
  by (induction xs) auto

lemma pairs_of_distinct: "distinct l \<Longrightarrow> (a, b) \<in> set (pairs_of l) \<Longrightarrow> a \<noteq> b"
  by (induction l) auto

lemma pairs_of_set: "(a, b) \<in> set (pairs_of l) \<Longrightarrow> a \<in> set l \<and> b \<in> set l"
  by (induction l) auto

lemma count_pairs:
  assumes "distinct l" "u \<noteq> v"
  shows "length (filter (\<lambda>e. joins e u v) (pairs_of l))
       = (if u \<in> set l \<and> v \<in> set l then 1 else 0)"
  using assms(1)
proof (induction l)
  case Nil
  then show ?case by simp
next
  case (Cons x xs)
  then have d: "distinct xs" "x \<notin> set xs" by simp_all
  have ih: "length (filter (\<lambda>e. joins e u v) (pairs_of xs))
       = (if u \<in> set xs \<and> v \<in> set xs then 1 else 0)"
    using Cons.IH d(1) by simp
  have fm: "length (filter (\<lambda>e. joins e u v) (map (Pair x) xs))
      = length (filter (\<lambda>y. joins (x, y) u v) xs)"
    by (simp add: filter_map o_def)
  consider (isu) "x = u" | (isv) "x = v" | (other) "x \<noteq> u" "x \<noteq> v" by blast
  then show ?case
  proof cases
    case isu
    with assms(2) have "joins (x, y) u v \<longleftrightarrow> y = v" for y by (auto simp: joins_def)
    then have "length (filter (\<lambda>y. joins (x, y) u v) xs) = (if v \<in> set xs then 1 else 0)"
      using count_one [OF d(1), of v] by simp
    moreover from isu d(2) have "u \<notin> set xs" by simp
    ultimately show ?thesis using ih fm isu assms(2) by simp
  next
    case isv
    with assms(2) have "joins (x, y) u v \<longleftrightarrow> y = u" for y by (auto simp: joins_def)
    then have "length (filter (\<lambda>y. joins (x, y) u v) xs) = (if u \<in> set xs then 1 else 0)"
      using count_one [OF d(1), of u] by simp
    moreover from isv d(2) have "v \<notin> set xs" by simp
    ultimately show ?thesis using ih fm isv assms(2) by simp
  next
    case other
    then have "\<not> joins (x, y) u v" for y by (auto simp: joins_def)
    then have "length (filter (\<lambda>y. joins (x, y) u v) xs) = 0" by simp
    with ih fm other show ?thesis by simp
  qed
qed

lemma count_self_pairs:
  assumes "distinct l"
  shows "length (filter (\<lambda>e. joins e u u) (pairs_of l)) = 0"
proof (rule count_none)
  fix e assume e: "e \<in> set (pairs_of l)"
  obtain a b where ab: "e = (a, b)" by (cases e)
  with e have "a \<noteq> b" using pairs_of_distinct [OF assms, of a b] by simp
  with ab show "\<not> joins e u u" by (auto simp: joins_def)
qed

lemma wf_pc_entry:
  assumes "wf_pc pc" "(p, l) \<in> set pc"
  shows "dict_get pc p [] = l" "distinct l"
proof -
  from assms have "map_of pc p = Some l" by (simp add: wf_pc_def)
  then show "dict_get pc p [] = l" by (simp add: dict_get_def)
  with assms(1) show "distinct l" unfolding wf_pc_def by metis
qed

lemma count_all_pairs:
  assumes "wf_pc pc" "u \<noteq> v"
  shows "length (filter (\<lambda>e. joins e u v) (concat (map (\<lambda>(pid, l). pairs_of l) pc)))
       = length (filter (\<lambda>(p, l). u \<in> set l \<and> v \<in> set l) pc)"
proof -
  have "\<forall>(p, l) \<in> set pc. distinct l"
    using wf_pc_entry(2) [OF assms(1)] by blast
  then show ?thesis
  proof (induction pc)
    case Nil
    then show ?case by simp
  next
    case (Cons a pc)
    obtain p l where a: "a = (p, l)" by (cases a)
    with Cons.prems have "distinct l" by simp
    from count_pairs [OF this assms(2)] Cons a show ?case by simp
  qed
qed

lemma count_self_all_pairs:
  assumes "wf_pc pc"
  shows "length (filter (\<lambda>e. joins e u u) (concat (map (\<lambda>(pid, l). pairs_of l) pc))) = 0"
proof -
  have "\<forall>(p, l) \<in> set pc. distinct l"
    using wf_pc_entry(2) [OF assms(1)] by blast
  then show ?thesis
  proof (induction pc)
    case Nil
    then show ?case by simp
  next
    case (Cons a pc)
    obtain p l where a: "a = (p, l)" by (cases a)
    with Cons.prems have "distinct l" by simp
    from count_self_pairs [OF this, of u] Cons a show ?case by simp
  qed
qed

lemma members_outside:
  assumes "p \<notin> fst ` set pc"
  shows "members pc p = {}"
proof -
  from assms have "map_of pc p = None" by (simp add: map_of_eq_None_iff)
  then show ?thesis by (simp add: members_def dict_get_def)
qed

lemma count_entries:
  assumes "wf_pc pc"
  shows "length (filter (\<lambda>(p, l). u \<in> set l \<and> v \<in> set l) pc)
       = card {p. u \<in> members pc p \<and> v \<in> members pc p}"
proof -
  let ?sel = "filter (\<lambda>(p, l). u \<in> set l \<and> v \<in> set l) pc"
  from assms have "distinct (map fst pc)" by (simp add: wf_pc_def)
  then have d: "distinct (map fst ?sel)" by (rule distinct_map_filter)
  have "set (map fst ?sel) = {p. u \<in> members pc p \<and> v \<in> members pc p}"
  proof (intro set_eqI iffI)
    fix p assume "p \<in> set (map fst ?sel)"
    then obtain l where l: "(p, l) \<in> set pc" "u \<in> set l" "v \<in> set l" by auto
    with wf_pc_entry(1) [OF assms l(1)]
    show "p \<in> {p. u \<in> members pc p \<and> v \<in> members pc p}" by (simp add: members_def)
  next
    fix p assume p: "p \<in> {p. u \<in> members pc p \<and> v \<in> members pc p}"
    then have "p \<in> fst ` set pc" using members_outside [of p pc] by auto
    then obtain l where l: "(p, l) \<in> set pc" by auto
    with wf_pc_entry(1) [OF assms l] p have "u \<in> set l" "v \<in> set l"
      by (simp_all add: members_def)
    with l show "p \<in> set (map fst ?sel)" by force
  qed
  with distinct_card [OF d] show ?thesis by simp
qed

lemma foldl_add_node:
  "adj (foldl (\<lambda>g c. add_node g (customer_id c) (customer_name c, city c)) g cs) = adj g"
  "dom (nodes (foldl (\<lambda>g c. add_node g (customer_id c) (customer_name c, city c)) g cs))
     = dom (nodes g) \<union> customer_id ` set cs"
  by (induction cs arbitrary: g) (auto simp: add_node_def)

lemma finite_shared: "finite (shared_products orders c1 c2)"
proof -
  have "shared_products orders c1 c2 \<subseteq> snd ` set (purchases orders)"
    using purchases_bought [of c1 _ orders] by (force simp: shared_products_def)
  then show ?thesis by (rule finite_subset) simp
qed

lemma product_graph_adj:
  fixes customers orders
  defines "G \<equiv> build_customer_product_graph customers orders"
  shows "c1 \<noteq> c2 \<Longrightarrow> adj G (c1, c2) =
           (if shared_products orders c1 c2 = {} then None
            else Some (int (card (shared_products orders c1 c2))))"
    and "adj G (c, c) = None"
    and "customer_id ` set customers \<subseteq> dom (nodes G)"
proof -
  let ?g0 = "foldl (\<lambda>g c. add_node g (customer_id c) (customer_name c, city c))
               (empty_graph :: int graph) customers"
  let ?pc = "product_customers orders"
  let ?es = "concat (map (\<lambda>(pid, l). pairs_of l) ?pc)"
  have G: "G = foldl bump_weight ?g0 ?es"
    unfolding G_def build_customer_product_graph_def Let_def foldl_pairs ..
  have adj0: "adj ?g0 = Map.empty"
    by (simp add: foldl_add_node empty_graph_def)
  then have good0: "good ?g0" and w0: "\<And>u v. weight_of ?g0 u v = 0"
    by (simp_all add: good_def weight_of_def)
  from foldl_bump [OF good0, of ?es]
  have goodG: "good G"
    and wG: "\<And>u v. weight_of G u v = int (length (filter (\<lambda>e. joins e u v) ?es))"
    unfolding G by (simp_all add: w0)
  note wf = product_customers_members(1) [of orders]
  have mem: "{p. u \<in> members ?pc p \<and> v \<in> members ?pc p} = shared_products orders u v" for u v
    by (simp add: product_customers_members(2) shared_products_def)
  show "adj G (c1, c2) =
           (if shared_products orders c1 c2 = {} then None
            else Some (int (card (shared_products orders c1 c2))))" if "c1 \<noteq> c2"
  proof -
    have "weight_of G c1 c2 = int (card (shared_products orders c1 c2))"
      unfolding wG count_all_pairs [OF wf that] count_entries [OF wf] mem ..
    moreover have "card (shared_products orders c1 c2) = 0 \<longleftrightarrow> shared_products orders c1 c2 = {}"
      using finite_shared by (rule card_0_eq)
    ultimately show ?thesis
      unfolding good_has_edge [OF goodG, of c1 c2] by simp
  qed
  have "weight_of G c c = 0"
    unfolding wG count_self_all_pairs [OF wf] by simp
  then show "adj G (c, c) = None"
    unfolding good_has_edge [OF goodG, of c c] by simp
  have "customer_id ` set customers \<subseteq> dom (nodes ?g0)"
    by (simp add: foldl_add_node)
  with nodes_foldl_bump [of ?g0 ?es] show "customer_id ` set customers \<subseteq> dom (nodes G)"
    unfolding G by blast
qed

text \<open>
  C7.  In the graph of \<open>build_customer_product_graph\<close> two distinct customers are joined
  exactly when they bought a common product, and the weight of the edge is the number of
  distinct products both bought, however often and in whatever quantity.  There are no
  loops, every customer passed in is a node, and a customer without purchases has no
  edge.  If the common products of A and B are exactly P and Q, the weight is 2.
\<close>

theorem product_graph_weights:
  "(\<forall>c1 c2. c1 \<noteq> c2 \<longrightarrow>
      (has_edge (build_customer_product_graph customers orders) c1 c2
         \<longleftrightarrow> (\<exists>p. bought orders c1 p \<and> bought orders c2 p))
    \<and> (has_edge (build_customer_product_graph customers orders) c1 c2 \<longrightarrow>
         adj (build_customer_product_graph customers orders) (c1, c2)
           = Some (int (card {p. bought orders c1 p \<and> bought orders c2 p}))))
   \<and> (\<forall>c. \<not> has_edge (build_customer_product_graph customers orders) c c)
   \<and> (\<forall>c \<in> set customers.
        customer_id c \<in> dom (nodes (build_customer_product_graph customers orders)))
   \<and> (\<forall>c. (\<forall>p. \<not> bought orders c p) \<longrightarrow>
        (\<forall>c'. \<not> has_edge (build_customer_product_graph customers orders) c c'))
   \<and> (\<forall>a b p q. a \<noteq> b \<and> p \<noteq> q \<and> {x. bought orders a x \<and> bought orders b x} = {p, q} \<longrightarrow>
        adj (build_customer_product_graph customers orders) (a, b) = Some 2)"
proof -
  let ?G = "build_customer_product_graph customers orders"
  note adj1 = product_graph_adj(1) [of _ _ customers orders, unfolded shared_products_def]
  note adj2 = product_graph_adj(2) [of customers orders]
  note nod = product_graph_adj(3) [of customers orders]
  have e: "has_edge ?G c1 c2 \<longleftrightarrow> (\<exists>p. bought orders c1 p \<and> bought orders c2 p)"
    if "c1 \<noteq> c2" for c1 c2
    unfolding has_edge_def adj1 [OF that] by auto
  have w: "adj ?G (c1, c2) = Some (int (card {p. bought orders c1 p \<and> bought orders c2 p}))"
    if "c1 \<noteq> c2" "has_edge ?G c1 c2" for c1 c2
    using that(2) unfolding has_edge_def adj1 [OF that(1)] by (simp split: if_splits)
  have s: "\<not> has_edge ?G c c" for c
    by (simp add: has_edge_def adj2)
  have iso: "\<not> has_edge ?G c c'" if "\<forall>p. \<not> bought orders c p" for c c'
  proof (cases "c = c'")
    case True
    with s show ?thesis by simp
  next
    case False
    with e [OF False] that show ?thesis by simp
  qed
  have ex: "adj ?G (a, b) = Some 2"
    if "a \<noteq> b \<and> p \<noteq> q \<and> {x. bought orders a x \<and> bought orders b x} = {p, q}" for a b p q
  proof -
    from that have "a \<noteq> b" "p \<noteq> q" "{x. bought orders a x \<and> bought orders b x} = {p, q}"
      by simp_all
    then show ?thesis unfolding adj1 [OF \<open>a \<noteq> b\<close>] by simp
  qed
  from e w s iso ex nod show ?thesis by blast
qed

lemma net_bought:
  "bought net_orders 1 p \<longleftrightarrow> p = 1 \<or> p = 2"
  "bought net_orders 2 p \<longleftrightarrow> p = 1 \<or> p = 2"
  "\<not> bought net_orders 3 p"
  by (auto simp: bought_def net_orders_def order_of_def cust_def pid_of_def
      test_product1_def test_product2_def)

theorem product_graph_weights_witness:
  "adj (build_customer_product_graph net_customers net_orders) (1, 2) = Some 2
   \<and> has_edge (build_customer_product_graph net_customers net_orders) 1 2
   \<and> \<not> has_edge (build_customer_product_graph net_customers net_orders) 3 1
   \<and> \<not> has_edge (build_customer_product_graph net_customers net_orders) 1 1
   \<and> 3 \<in> dom (nodes (build_customer_product_graph net_customers net_orders))"
proof -
  note inst = product_graph_weights [of net_customers net_orders]
  have sh: "{x. bought net_orders 1 x \<and> bought net_orders 2 x} = {1, 2}"
    by (auto simp: net_bought)
  have 1: "adj (build_customer_product_graph net_customers net_orders) (1, 2) = Some 2"
    using inst [THEN conjunct2, THEN conjunct2, THEN conjunct2, THEN conjunct2, rule_format,
        of 1 2 1 2] sh by simp
  have 2: "has_edge (build_customer_product_graph net_customers net_orders) 1 2"
    using inst [THEN conjunct1, rule_format, of 1 2, THEN conjunct1] net_bought(1,2) [of 1]
    by auto
  have 3: "\<not> has_edge (build_customer_product_graph net_customers net_orders) 3 1"
    using inst [THEN conjunct2, THEN conjunct2, THEN conjunct2, THEN conjunct1, rule_format,
        of 3 1] net_bought(3) by simp
  have 4: "\<not> has_edge (build_customer_product_graph net_customers net_orders) 1 1"
    using inst [THEN conjunct2, THEN conjunct1, rule_format, of 1] .
  have "cust 3 ''Klient3'' ''Moskva'' \<in> set net_customers" by (simp add: net_customers_def)
  from inst [THEN conjunct2, THEN conjunct2, THEN conjunct1, rule_format, OF this]
  have 5: "3 \<in> dom (nodes (build_customer_product_graph net_customers net_orders))"
    by (simp add: cust_def)
  from 1 2 3 4 5 show ?thesis by blast
qed

section \<open>The shared-city graph is complete on every city\<close>

lemma note_city_fst: "fst (foldl note_city (cc, g) cs) = foldl city_step cc cs"
  by (induction cs arbitrary: cc g) (simp_all add: note_city_def city_step_def)

lemma note_city_snd:
  "adj (snd (foldl note_city (cc, g) cs)) = adj g"
  "dom (nodes (snd (foldl note_city (cc, g) cs)))
     = dom (nodes g) \<union> {customer_id c | c. c \<in> set cs \<and> city c \<noteq> []}"
  by (induction cs arbitrary: cc g) (auto simp: note_city_def add_node_def)

lemma city_step_props:
  assumes "distinct (map fst cc)"
  shows "distinct (map fst (city_step cc c))"
    and "dict_get (city_step cc c) ct [] = dict_get cc ct [] @ in_city [c] ct"
    and "fst ` set (city_step cc c) = fst ` set cc \<union> (if city c \<noteq> [] then {city c} else {})"
proof -
  show "distinct (map fst (city_step cc c))"
    using assms by (simp add: city_step_def distinct_dict_set)
  show "dict_get (city_step cc c) ct [] = dict_get cc ct [] @ in_city [c] ct"
    by (auto simp: city_step_def dict_get_def map_of_dict_set in_city_def)
  show "fst ` set (city_step cc c) = fst ` set cc \<union> (if city c \<noteq> [] then {city c} else {})"
    by (simp add: city_step_def keys_dict_set)
qed

lemma city_dict:
  "distinct (map fst cc) \<Longrightarrow>
   distinct (map fst (foldl city_step cc cs))
   \<and> (\<forall>ct. dict_get (foldl city_step cc cs) ct [] = dict_get cc ct [] @ in_city cs ct)
   \<and> fst ` set (foldl city_step cc cs)
       = fst ` set cc \<union> {city c | c. c \<in> set cs \<and> city c \<noteq> []}"
proof (induction cs arbitrary: cc)
  case Nil
  then show ?case by (simp add: in_city_def)
next
  case (Cons c cs)
  note p = city_step_props [OF Cons.prems, of c]
  from Cons.IH [OF p(1)] have ih:
    "distinct (map fst (foldl city_step (city_step cc c) cs))"
    "\<And>ct. dict_get (foldl city_step (city_step cc c) cs) ct []
        = dict_get (city_step cc c) ct [] @ in_city cs ct"
    "fst ` set (foldl city_step (city_step cc c) cs)
       = fst ` set (city_step cc c) \<union> {city c | c. c \<in> set cs \<and> city c \<noteq> []}"
    by simp_all
  have 1: "distinct (map fst (foldl city_step cc (c # cs)))"
    using ih(1) by simp
  have 2: "dict_get (foldl city_step cc (c # cs)) ct [] = dict_get cc ct [] @ in_city (c # cs) ct"
    for ct
    using ih(2) [of ct] p(2) [of ct] by (simp add: in_city_def)
  have 3: "fst ` set (foldl city_step cc (c # cs))
       = fst ` set cc \<union> {city x | x. x \<in> set (c # cs) \<and> city x \<noteq> []}"
    using ih(3) p(3) by auto
  from 1 2 3 show ?case by blast
qed

lemma adj_tag_edge:
  "adj (tag_edge g (a, b, t)) (u, v) = (if joins (a, b) u v then Some t else adj g (u, v))"
proof -
  have "adj (tag_edge g (a, b, t)) = (adj g)((a, b) \<mapsto> t, (b, a) \<mapsto> t)"
    by (simp add: tag_edge_def add_edge_def)
  moreover have "((u, v) = (a, b) \<or> (u, v) = (b, a)) = joins (a, b) u v"
    by (auto simp: joins_def)
  ultimately show ?thesis
    by (simp only: fun_upd2_apply)
qed

lemma nodes_tag_edge: "dom (nodes (tag_edge g (a, b, t))) = dom (nodes g) \<union> {a, b}"
  by (auto simp: tag_edge_def add_edge_def touch_node_def split: if_splits)

lemma adj_foldl_tag_edge:
  "adj (foldl tag_edge g ts) (u, v) =
     (if matching ts u v = [] then adj g (u, v) else Some (snd (snd (last (matching ts u v)))))"
proof (induction ts rule: rev_induct)
  case Nil
  then show ?case by (simp add: matching_def)
next
  case (snoc e ts)
  obtain a b t where e: "e = (a, b, t)" by (cases e)
  show ?case
  proof (cases "joins (a, b) u v")
    case True
    then have "matching (ts @ [e]) u v = matching ts u v @ [e]"
      by (simp add: matching_def e)
    with True show ?thesis by (simp add: e adj_tag_edge)
  next
    case False
    then have "matching (ts @ [e]) u v = matching ts u v"
      by (simp add: matching_def e)
    with False snoc show ?thesis by (simp add: e adj_tag_edge)
  qed
qed

lemma nodes_foldl_tag_edge:
  "dom (nodes (foldl tag_edge g ts))
     = dom (nodes g) \<union> {x. \<exists>a b t. (a, b, t) \<in> set ts \<and> (x = a \<or> x = b)}"
proof (induction ts rule: rev_induct)
  case Nil
  then show ?case by simp
next
  case (snoc e ts)
  obtain a b t where e: "e = (a, b, t)" by (cases e)
  show ?case unfolding e using snoc by (simp add: nodes_tag_edge) blast
qed

lemma foldl_city_edges:
  "foldl (\<lambda>g (ct, customers_list).
            foldl (\<lambda>g (customer1, customer2). add_edge g customer1 customer2 ct)
              g (pairs_of customers_list)) g cc
     = foldl tag_edge g (city_edges cc)"
proof (induction cc arbitrary: g)
  case Nil
  then show ?case by (simp add: city_edges_def)
next
  case (Cons x cc)
  obtain ct l where x: "x = (ct, l)" by (cases x)
  have inner: "foldl (\<lambda>g (customer1, customer2). add_edge g customer1 customer2 ct) g ps
      = foldl tag_edge g (map (\<lambda>(u, v). (u, v, ct)) ps)" for g ps
    by (induction ps arbitrary: g) (simp_all add: tag_edge_def case_prod_unfold)
  show ?case
    using Cons [of "foldl tag_edge g (map (\<lambda>(u, v). (u, v, ct)) (pairs_of l))"]
    by (simp add: x inner city_edges_def)
qed

lemma city_edges_iff:
  "(a, b, t) \<in> set (city_edges cc) \<longleftrightarrow> (\<exists>l. (t, l) \<in> set cc \<and> (a, b) \<in> set (pairs_of l))"
proof (induction cc)
  case Nil
  then show ?case by (simp add: city_edges_def)
next
  case (Cons x cc)
  obtain ct l where x: "x = (ct, l)" by (cases x)
  have "city_edges (x # cc) = map (\<lambda>(u, v). (u, v, ct)) (pairs_of l) @ city_edges cc"
    by (simp add: city_edges_def x)
  moreover have "(a, b, t) \<in> set (map (\<lambda>(u, v). (u, v, ct)) (pairs_of l))
      \<longleftrightarrow> t = ct \<and> (a, b) \<in> set (pairs_of l)"
    by auto
  ultimately show ?case using Cons by (auto simp: x)
qed

lemma in_city_iff:
  "u \<in> set (in_city cs t) \<longleftrightarrow> (\<exists>c \<in> set cs. customer_id c = u \<and> city c = t \<and> t \<noteq> [])"
  by (auto simp: in_city_def)

lemma distinct_in_city: "distinct (map customer_id cs) \<Longrightarrow> distinct (in_city cs t)"
  unfolding in_city_def by (rule distinct_map_filter)

lemma same_id:
  assumes "distinct (map customer_id cs)" "c \<in> set cs" "c' \<in> set cs"
    "customer_id c = customer_id c'"
  shows "c = c'"
  using assms by (meson distinct_map inj_onD)

lemma city_graph_unfold:
  "build_customer_city_graph cs
     = foldl tag_edge (snd (foldl note_city ([], empty_graph) cs))
         (city_edges (foldl city_step [] cs))"
proof -
  obtain cc g where p: "foldl note_city ([], empty_graph) cs = (cc, g)"
    by (cases "foldl note_city ([], empty_graph :: string graph) cs")
  from note_city_fst [of "[]" empty_graph cs] p have "foldl city_step [] cs = cc" by simp
  with p show ?thesis
    by (simp add: build_customer_city_graph_def foldl_city_edges)
qed

lemma city_entries:
  "(t, l) \<in> set (foldl city_step [] cs) \<Longrightarrow> l = in_city cs t"
  "(\<exists>l. (t, l) \<in> set (foldl city_step [] cs)) \<longleftrightarrow> (\<exists>c \<in> set cs. city c = t \<and> t \<noteq> [])"
proof -
  have e: "distinct (map fst ([] :: (string \<times> int list) list))" by simp
  note d = city_dict [OF e, of cs]
  show "l = in_city cs t" if "(t, l) \<in> set (foldl city_step [] cs)"
  proof -
    from d that have "map_of (foldl city_step [] cs) t = Some l" by simp
    then have "dict_get (foldl city_step [] cs) t [] = l" by (simp add: dict_get_def)
    with d show ?thesis by (simp add: dict_get_def)
  qed
  have "(\<exists>l. (t, l) \<in> set (foldl city_step [] cs)) \<longleftrightarrow> t \<in> fst ` set (foldl city_step [] cs)"
    by force
  also have "\<dots> \<longleftrightarrow> (\<exists>c \<in> set cs. city c = t \<and> t \<noteq> [])"
    using d by auto
  finally show "(\<exists>l. (t, l) \<in> set (foldl city_step [] cs)) \<longleftrightarrow> (\<exists>c \<in> set cs. city c = t \<and> t \<noteq> [])" .
qed

lemma city_edge_ends:
  assumes "distinct (map customer_id cs)" "(a, b, t) \<in> set (city_edges (foldl city_step [] cs))"
  shows "a \<noteq> b" "a \<in> set (in_city cs t)" "b \<in> set (in_city cs t)"
proof -
  from assms(2) obtain l where l: "(t, l) \<in> set (foldl city_step [] cs)"
    "(a, b) \<in> set (pairs_of l)"
    unfolding city_edges_iff by blast
  from city_entries(1) [OF l(1)] have eq: "l = in_city cs t" .
  from pairs_of_distinct [OF distinct_in_city [OF assms(1)], of a b t] l(2) eq
  show "a \<noteq> b" by simp
  from pairs_of_set [OF l(2)] eq
  show "a \<in> set (in_city cs t)" "b \<in> set (in_city cs t)" by simp_all
qed

lemma matching_ends:
  assumes "distinct (map customer_id cs)"
    "e \<in> set (matching (city_edges (foldl city_step [] cs)) u v)"
  shows "u \<noteq> v" "u \<in> set (in_city cs (snd (snd e)))" "v \<in> set (in_city cs (snd (snd e)))"
proof -
  obtain a b t where e: "e = (a, b, t)" by (cases e)
  from assms(2) have m: "(a, b, t) \<in> set (city_edges (foldl city_step [] cs))"
    and j: "(a = u \<and> b = v) \<or> (a = v \<and> b = u)"
    by (auto simp: matching_def e joins_def)
  note ends = city_edge_ends [OF assms(1) m]
  from j ends show "u \<noteq> v" "u \<in> set (in_city cs (snd (snd e)))"
    "v \<in> set (in_city cs (snd (snd e)))"
    by (auto simp: e)
qed

lemma matching_exists:
  assumes "distinct (map customer_id cs)" "u \<noteq> v"
    "u \<in> set (in_city cs t)" "v \<in> set (in_city cs t)"
  shows "matching (city_edges (foldl city_step [] cs)) u v \<noteq> []"
proof -
  from assms(3) have "\<exists>c \<in> set cs. city c = t \<and> t \<noteq> []" by (auto simp: in_city_iff)
  then obtain l where l: "(t, l) \<in> set (foldl city_step [] cs)"
    unfolding city_entries(2) [symmetric] by blast
  from city_entries(1) [OF l] have eq: "l = in_city cs t" .
  from count_pairs [OF distinct_in_city [OF assms(1)] assms(2), of t] assms(3,4)
  have "length (filter (\<lambda>e. joins e u v) (pairs_of l)) = 1" by (simp add: eq)
  then have "filter (\<lambda>e. joins e u v) (pairs_of l) \<noteq> []" by auto
  then obtain a b where ab: "(a, b) \<in> set (pairs_of l)" "joins (a, b) u v"
    by (auto simp: filter_empty_conv)
  with l have "(a, b, t) \<in> set (city_edges (foldl city_step [] cs))"
    unfolding city_edges_iff by blast
  with ab(2) have "(a, b, t) \<in> set (matching (city_edges (foldl city_step [] cs)) u v)"
    by (simp add: matching_def)
  then show ?thesis by auto
qed

lemma city_graph_adj:
  "adj (build_customer_city_graph cs) (u, v) =
     (if matching (city_edges (foldl city_step [] cs)) u v = [] then None
      else Some (snd (snd (last (matching (city_edges (foldl city_step [] cs)) u v)))))"
  unfolding city_graph_unfold adj_foldl_tag_edge
  by (simp add: note_city_snd empty_graph_def)

lemma city_graph_pair:
  assumes D: "distinct (map customer_id cs)"
    and c: "c1 \<in> set cs" "c2 \<in> set cs" "c1 \<noteq> c2"
  shows "adj (build_customer_city_graph cs) (customer_id c1, customer_id c2) =
     (if city c1 \<noteq> [] \<and> city c1 = city c2 then Some (city c1) else None)"
proof -
  let ?u = "customer_id c1" and ?v = "customer_id c2"
  let ?ms = "matching (city_edges (foldl city_step [] cs)) ?u ?v"
  from same_id [OF D c(1,2)] c(3) have ne: "?u \<noteq> ?v" by blast
  have tag: "city c1 = snd (snd e) \<and> city c2 = snd (snd e) \<and> snd (snd e) \<noteq> []"
    if "e \<in> set ?ms" for e
  proof -
    from matching_ends(2,3) [OF D that]
    obtain x y where x: "x \<in> set cs" "customer_id x = ?u" "city x = snd (snd e)"
        "snd (snd e) \<noteq> []"
      and y: "y \<in> set cs" "customer_id y = ?v" "city y = snd (snd e)"
      unfolding in_city_iff by blast
    from same_id [OF D x(1) c(1) x(2)] same_id [OF D y(1) c(2) y(2)] x y
    show ?thesis by simp
  qed
  show ?thesis
  proof (cases "city c1 \<noteq> [] \<and> city c1 = city c2")
    case True
    with c have "?u \<in> set (in_city cs (city c1))" "?v \<in> set (in_city cs (city c1))"
      unfolding in_city_iff by auto
    from matching_exists [OF D ne this] have nonempty: "?ms \<noteq> []" .
    then have "last ?ms \<in> set ?ms" by (rule last_in_set)
    from tag [OF this] have "snd (snd (last ?ms)) = city c1" by simp
    with nonempty True show ?thesis unfolding city_graph_adj by auto
  next
    case False
    have "?ms = []"
    proof (rule ccontr)
      assume "?ms \<noteq> []"
      then have "hd ?ms \<in> set ?ms" by (rule hd_in_set)
      from tag [OF this] False show False by simp
    qed
    with False show ?thesis unfolding city_graph_adj by simp
  qed
qed

lemma city_graph_edge:
  assumes D: "distinct (map customer_id cs)"
    and e: "has_edge (build_customer_city_graph cs) u v"
  shows "u \<noteq> v \<and> (\<exists>c1 \<in> set cs. \<exists>c2 \<in> set cs.
      customer_id c1 = u \<and> customer_id c2 = v \<and> city c1 \<noteq> [] \<and> city c1 = city c2)"
proof -
  let ?ms = "matching (city_edges (foldl city_step [] cs)) u v"
  from e have "?ms \<noteq> []"
    unfolding has_edge_def city_graph_adj by (simp split: if_splits)
  then have "hd ?ms \<in> set ?ms" by (rule hd_in_set)
  from matching_ends [OF D this] show ?thesis
    unfolding in_city_iff by metis
qed

lemma city_graph_nodes:
  assumes D: "distinct (map customer_id cs)"
  shows "dom (nodes (build_customer_city_graph cs))
       = {customer_id c | c. c \<in> set cs \<and> city c \<noteq> []}"
proof -
  have ends: "x \<in> {customer_id c | c. c \<in> set cs \<and> city c \<noteq> []}"
    if "(a, b, t) \<in> set (city_edges (foldl city_step [] cs))" "x = a \<or> x = b" for a b t x
    using city_edge_ends(2,3) [OF D that(1)] that(2) unfolding in_city_iff by auto
  have "dom (nodes (build_customer_city_graph cs))
      = {customer_id c | c. c \<in> set cs \<and> city c \<noteq> []}
        \<union> {x. \<exists>a b t. (a, b, t) \<in> set (city_edges (foldl city_step [] cs)) \<and> (x = a \<or> x = b)}"
    unfolding city_graph_unfold nodes_foldl_tag_edge
    by (simp add: note_city_snd empty_graph_def)
  with ends show ?thesis by blast
qed

lemma card_three_edges:
  assumes "a \<noteq> b" "a \<noteq> c" "b \<noteq> c"
  shows "card {{a, b}, {a, c}, {b, c :: int}} = 3"
proof -
  have "{a, b} \<noteq> {a, c}" "{a, b} \<noteq> {b, c}" "{a, c} \<noteq> {b, c}"
    using assms by (auto simp: doubleton_eq_iff)
  then show ?thesis by simp
qed

lemma city_graph_three:
  assumes D: "distinct (map customer_id [a, b, c])"
    and t: "city a \<noteq> []" "city b = city a" "city c = city a"
  shows "card (edge_set (build_customer_city_graph [a, b, c])) = 3"
proof -
  let ?G = "build_customer_city_graph [a, b, c]"
  let ?a = "customer_id a" and ?b = "customer_id b" and ?c = "customer_id c"
  from D have ids: "?a \<noteq> ?b" "?a \<noteq> ?c" "?b \<noteq> ?c" by auto
  then have ne: "a \<noteq> b" "a \<noteq> c" "b \<noteq> c" by auto
  have "has_edge ?G ?a ?b" "has_edge ?G ?a ?c" "has_edge ?G ?b ?c"
    using city_graph_pair [OF D, of a b] city_graph_pair [OF D, of a c]
      city_graph_pair [OF D, of b c] ne t
    by (simp_all add: has_edge_def)
  then have sup: "{{?a, ?b}, {?a, ?c}, {?b, ?c}} \<subseteq> edge_set ?G"
    unfolding edge_set_def by blast
  have sub: "edge_set ?G \<subseteq> {{?a, ?b}, {?a, ?c}, {?b, ?c}}"
  proof
    fix e assume "e \<in> edge_set ?G"
    then obtain u v where e: "e = {u, v}" and h: "has_edge ?G u v"
      unfolding edge_set_def by blast
    from city_graph_edge [OF D h] have "u \<noteq> v" "u \<in> {?a, ?b, ?c}" "v \<in> {?a, ?b, ?c}"
      by auto
    then show "e \<in> {{?a, ?b}, {?a, ?c}, {?b, ?c}}"
      unfolding e by (auto simp: doubleton_eq_iff)
  qed
  from sub sup have "edge_set ?G = {{?a, ?b}, {?a, ?c}, {?b, ?c}}" by (rule equalityI)
  with card_three_edges [OF ids] show ?thesis by simp
qed

text \<open>
  C8.  For customers with pairwise distinct ids, \<open>build_customer_city_graph\<close> joins two
  customers exactly when they have the same non-empty city, and tags the edge with that
  city; every edge joins two such customers and there are no loops.  The nodes are the
  customers with a non-empty city, so a customer without a city is neither a node nor an
  end of an edge.  Three customers of one city give exactly three edges.
\<close>

theorem city_graph_complete:
  assumes "distinct (map customer_id customers)"
  shows "(\<forall>c1 \<in> set customers. \<forall>c2 \<in> set customers. c1 \<noteq> c2 \<longrightarrow>
            adj (build_customer_city_graph customers) (customer_id c1, customer_id c2) =
              (if city c1 \<noteq> [] \<and> city c1 = city c2 then Some (city c1) else None))
       \<and> (\<forall>u v. has_edge (build_customer_city_graph customers) u v \<longrightarrow>
            u \<noteq> v \<and> (\<exists>c1 \<in> set customers. \<exists>c2 \<in> set customers.
              customer_id c1 = u \<and> customer_id c2 = v \<and> city c1 \<noteq> [] \<and> city c1 = city c2))
       \<and> dom (nodes (build_customer_city_graph customers))
            = {customer_id c | c. c \<in> set customers \<and> city c \<noteq> []}
       \<and> (\<forall>c \<in> set customers. city c = [] \<longrightarrow>
            customer_id c \<notin> dom (nodes (build_customer_city_graph customers))
            \<and> (\<forall>v. \<not> has_edge (build_customer_city_graph customers) (customer_id c) v
                   \<and> \<not> has_edge (build_customer_city_graph customers) v (customer_id c)))
       \<and> (\<forall>a b c. customers = [a, b, c] \<and> city a \<noteq> [] \<and> city b = city a \<and> city c = city a
            \<longrightarrow> card (edge_set (build_customer_city_graph customers)) = 3)"
proof (intro conjI ballI allI impI)
  fix c1 c2 assume "c1 \<in> set customers" "c2 \<in> set customers" "c1 \<noteq> c2"
  then show "adj (build_customer_city_graph customers) (customer_id c1, customer_id c2) =
              (if city c1 \<noteq> [] \<and> city c1 = city c2 then Some (city c1) else None)"
    by (rule city_graph_pair [OF assms])
next
  fix u v assume h: "has_edge (build_customer_city_graph customers) u v"
  from city_graph_edge [OF assms h]
  show "u \<noteq> v" "\<exists>c1 \<in> set customers. \<exists>c2 \<in> set customers.
              customer_id c1 = u \<and> customer_id c2 = v \<and> city c1 \<noteq> [] \<and> city c1 = city c2"
    by blast+
next
  show "dom (nodes (build_customer_city_graph customers))
            = {customer_id c | c. c \<in> set customers \<and> city c \<noteq> []}"
    by (rule city_graph_nodes [OF assms])
next
  fix c assume c: "c \<in> set customers" "city c = []"
  show "customer_id c \<notin> dom (nodes (build_customer_city_graph customers))"
  proof
    assume "customer_id c \<in> dom (nodes (build_customer_city_graph customers))"
    then obtain c' where c': "c' \<in> set customers" "city c' \<noteq> []" "customer_id c' = customer_id c"
      unfolding city_graph_nodes [OF assms] by auto
    from same_id [OF assms c'(1) c(1) c'(3)] c'(2) c(2) show False by simp
  qed
  fix v
  show "\<not> has_edge (build_customer_city_graph customers) (customer_id c) v"
  proof
    assume "has_edge (build_customer_city_graph customers) (customer_id c) v"
    from city_graph_edge [OF assms this]
    obtain c' where c': "c' \<in> set customers" "city c' \<noteq> []" "customer_id c' = customer_id c"
      by auto
    from same_id [OF assms c'(1) c(1) c'(3)] c'(2) c(2) show False by simp
  qed
  show "\<not> has_edge (build_customer_city_graph customers) v (customer_id c)"
  proof
    assume "has_edge (build_customer_city_graph customers) v (customer_id c)"
    from city_graph_edge [OF assms this]
    obtain c' where c': "c' \<in> set customers" "city c' \<noteq> []" "customer_id c' = customer_id c"
      by auto
    from same_id [OF assms c'(1) c(1) c'(3)] c'(2) c(2) show False by simp
  qed
next
  fix a b c
  assume h: "customers = [a, b, c] \<and> city a \<noteq> [] \<and> city b = city a \<and> city c = city a"
  with assms have "distinct (map customer_id [a, b, c])" by simp
  from city_graph_three [OF this] h
  show "card (edge_set (build_customer_city_graph customers)) = 3" by simp
qed

theorem city_graph_complete_witness:
  "distinct (map customer_id net_customers)
   \<and> adj (build_customer_city_graph net_customers) (1, 2) = Some ''Moskva''
   \<and> 4 \<notin> dom (nodes (build_customer_city_graph net_customers))
   \<and> \<not> has_edge (build_customer_city_graph net_customers) 4 1
   \<and> dom (nodes (build_customer_city_graph net_customers)) = {1, 2, 3}
   \<and> card (edge_set (build_customer_city_graph
        [cust 1 ''Klient1'' ''Moskva'', cust 2 ''Klient2'' ''Moskva'',
         cust 3 ''Klient3'' ''Moskva''])) = 3"
proof -
  let ?c1 = "cust 1 ''Klient1'' ''Moskva''" and ?c2 = "cust 2 ''Klient2'' ''Moskva''"
  let ?c3 = "cust 3 ''Klient3'' ''Moskva''" and ?c4 = "cust 4 ''Klient4'' []"
  have d: "distinct (map customer_id net_customers)"
    by (simp add: net_customers_def cust_def)
  have d3: "distinct (map customer_id [?c1, ?c2, ?c3])"
    by (simp add: cust_def)
  note inst = city_graph_complete [OF d]
  note inst3 = city_graph_complete [OF d3]
  have mem: "?c1 \<in> set net_customers" "?c2 \<in> set net_customers" "?c4 \<in> set net_customers"
    by (simp_all add: net_customers_def)
  have ne: "?c1 \<noteq> ?c2" by (simp add: cust_def)
  have 1: "adj (build_customer_city_graph net_customers) (1, 2) = Some ''Moskva''"
    using inst [THEN conjunct1, rule_format, OF mem(1) mem(2) ne] by (simp add: cust_def)
  have 2: "4 \<notin> dom (nodes (build_customer_city_graph net_customers))
      \<and> \<not> has_edge (build_customer_city_graph net_customers) 4 1"
    using inst [THEN conjunct2, THEN conjunct2, THEN conjunct2, THEN conjunct1, rule_format,
        OF mem(3)]
    by (simp add: cust_def)
  have "{customer_id c | c. c \<in> set net_customers \<and> city c \<noteq> []}
      = customer_id ` set (filter (\<lambda>c. city c \<noteq> []) net_customers)"
    by auto
  also have "\<dots> = {1, 2, 3}"
    by (simp add: net_customers_def cust_def)
  finally have "{customer_id c | c. c \<in> set net_customers \<and> city c \<noteq> []} = {1, 2, 3}" .
  with inst [THEN conjunct2, THEN conjunct2, THEN conjunct1]
  have 3: "dom (nodes (build_customer_city_graph net_customers)) = {1, 2, 3}" by simp
  have 4: "card (edge_set (build_customer_city_graph [?c1, ?c2, ?c3])) = 3"
    using inst3 [THEN conjunct2, THEN conjunct2, THEN conjunct2, THEN conjunct2, rule_format,
        of ?c1 ?c2 ?c3]
    by (simp add: cust_def)
  from d 1 2 3 4 show ?thesis by blast
qed

section \<open>Per-product statistics\<close>

text \<open>
  C6.  Without any order line (no orders, or orders without items) the list of rows is
  empty and \<open>get_product_sales_stats\<close> raises \<open>KeyError\<close> instead of returning no rows.
  On every other input it returns the rows the claim describes
  (\<open>product_stats_rows\<close>).
\<close>

theorem product_stats_empty_raises:
  "get_product_sales_stats sort_values [] = Inl (KeyError ''revenue'')
   \<and> get_product_sales_stats sort_values [test_order] = Inl (KeyError ''revenue'')"
  by (simp add: get_product_sales_stats_def stats_data_def product_stats_def test_order_def
      Order_init_def)

lemma product_stats_flat: 
  "foldl (\<lambda>stats ord. foldl note_sale stats (items ord)) st orders
     = foldl note_sale st (order_lines orders)"
  by (induction orders arbitrary: st) (simp_all add: order_lines_def)

lemma note_sale_get:
  "dict_get (note_sale st i) p stat_default
     = (if p = pid_of i then add_lines (dict_get st p stat_default) [i]
        else dict_get st p stat_default)"
  by (simp add: note_sale_def dict_get_def map_of_dict_set Let_def pid_of_def add_lines_def)

lemma add_lines_Cons:
  "add_lines (add_lines cur [i]) ls = add_lines cur (i # ls)"
  by (simp add: add_lines_def add.assoc)

lemma foldl_note_sale:
  "distinct (map fst st) \<Longrightarrow>
   distinct (map fst (foldl note_sale st ls))
   \<and> fst ` set (foldl note_sale st ls) = fst ` set st \<union> pid_of ` set ls
   \<and> (\<forall>p. dict_get (foldl note_sale st ls) p stat_default
          = add_lines (dict_get st p stat_default) (filter (\<lambda>i. pid_of i = p) ls))"
proof (induction ls arbitrary: st)
  case Nil
  then show ?case by (simp add: add_lines_def)
next
  case (Cons i ls)
  have d: "distinct (map fst (note_sale st i))"
    using Cons.prems by (simp add: note_sale_def Let_def distinct_dict_set)
  have k: "fst ` set (note_sale st i) = insert (pid_of i) (fst ` set st)"
    by (simp add: note_sale_def Let_def keys_dict_set pid_of_def)
  from Cons.IH [OF d] have ih:
    "distinct (map fst (foldl note_sale (note_sale st i) ls))"
    "fst ` set (foldl note_sale (note_sale st i) ls)
       = fst ` set (note_sale st i) \<union> pid_of ` set ls"
    "\<And>p. dict_get (foldl note_sale (note_sale st i) ls) p stat_default
          = add_lines (dict_get (note_sale st i) p stat_default)
              (filter (\<lambda>i. pid_of i = p) ls)"
    by simp_all
  have 3: "dict_get (foldl note_sale st (i # ls)) p stat_default
          = add_lines (dict_get st p stat_default) (filter (\<lambda>i. pid_of i = p) (i # ls))" for p
    using ih(3) [of p] by (simp add: note_sale_get add_lines_Cons)
  from ih(1) ih(2) k 3 show ?case by auto
qed

lemma stats_data_rows: "stats_data orders = map stat_row (product_stats orders)"
  by (simp add: stats_data_def stat_row_def case_prod_unfold)

lemma product_stats_entries:
  "distinct (map fst (product_stats orders))"
  "fst ` set (product_stats orders) = pid_of ` set (order_lines orders)"
  "(p, st) \<in> set (product_stats orders) \<Longrightarrow>
     lines_of orders p \<noteq> [] \<and> st = add_lines stat_default (lines_of orders p)"
proof -
  have e: "distinct (map fst ([] :: (int \<times> product_stat) list))" by simp
  note f = foldl_note_sale [OF e, of "order_lines orders"]
  have ps: "product_stats orders = foldl note_sale [] (order_lines orders)"
    by (simp add: product_stats_def product_stats_flat)
  show d: "distinct (map fst (product_stats orders))" using f by (simp add: ps)
  show k: "fst ` set (product_stats orders) = pid_of ` set (order_lines orders)"
    using f by (simp add: ps)
  show "lines_of orders p \<noteq> [] \<and> st = add_lines stat_default (lines_of orders p)"
    if m: "(p, st) \<in> set (product_stats orders)"
  proof -
    from m have "p \<in> fst ` set (product_stats orders)" by force
    with k have "p \<in> pid_of ` set (order_lines orders)" by simp
    then have ne: "lines_of orders p \<noteq> []"
      by (auto simp: lines_of_def filter_empty_conv)
    from d m have "map_of (product_stats orders) p = Some st" by simp
    then have "dict_get (product_stats orders) p stat_default = st"
      by (simp add: dict_get_def)
    moreover have "dict_get (product_stats orders) p stat_default
        = add_lines stat_default (lines_of orders p)"
      using f by (simp add: ps lines_of_def dict_get_def)
    ultimately show ?thesis using ne by simp
  qed
qed

lemma product_stats_rows:
  assumes perm: "\<And>xs. mset (sort_values xs) = mset xs"
    and sorted: "\<And>xs. list_all (\<lambda>r. revenue r \<noteq> NaN) xs \<Longrightarrow>
        sorted_wrt (\<lambda>a b. revenue a \<ge> revenue b) (sort_values xs)"
    and nonempty: "order_lines orders \<noteq> []"
  shows "\<exists>rows. get_product_sales_stats sort_values orders = Inr rows
    \<and> (list_all (\<lambda>r. revenue r \<noteq> NaN) rows \<longrightarrow>
         sorted_wrt (\<lambda>a b. revenue a \<ge> revenue b) rows)
    \<and> distinct (map sr_product_id rows)
    \<and> sr_product_id ` set rows = pid_of ` set (order_lines orders)
    \<and> (\<forall>r \<in> set rows.
          quantity_sold r = sum_list (map quantity (lines_of orders (sr_product_id r)))
        \<and> revenue r = sum_list (map item_total (lines_of orders (sr_product_id r)))
        \<and> sr_orders_count r = int (length (lines_of orders (sr_product_id r)))
        \<and> sr_name r = name (product (last (lines_of orders (sr_product_id r))))
        \<and> sr_category r = category (product (last (lines_of orders (sr_product_id r)))))"
proof -
  let ?data = "stats_data orders"
  let ?rows = "sort_values ?data"
  have ids: "map sr_product_id ?data = map fst (product_stats orders)"
    by (simp add: stats_data_rows stat_row_def o_def)
  from nonempty have "pid_of ` set (order_lines orders) \<noteq> {}" by simp
  then have "product_stats orders \<noteq> []"
    unfolding product_stats_entries(2) [symmetric] by auto
  then have "?data \<noteq> []" by (simp add: stats_data_rows)
  then have res: "get_product_sales_stats sort_values orders = Inr ?rows"
    by (simp add: get_product_sales_stats_def)
  from perm [of ?data] have set_rows: "set ?rows = set ?data" by (rule mset_eq_setD)
  have "mset (map sr_product_id ?rows) = mset (map sr_product_id ?data)"
    using perm [of ?data] by simp
  then have "distinct (map sr_product_id ?rows) = distinct (map sr_product_id ?data)"
    by (rule mset_eq_imp_distinct_iff)
  then have dist: "distinct (map sr_product_id ?rows)"
    by (simp add: ids product_stats_entries(1))
  have keys: "sr_product_id ` set ?rows = pid_of ` set (order_lines orders)"
  proof -
    have "sr_product_id ` set ?rows = set (map sr_product_id ?data)"
      by (simp add: set_rows)
    also have "\<dots> = fst ` set (product_stats orders)" by (simp add: ids)
    finally show ?thesis by (simp add: product_stats_entries(2))
  qed
  have vals: "quantity_sold r = sum_list (map quantity (lines_of orders (sr_product_id r)))
        \<and> revenue r = sum_list (map item_total (lines_of orders (sr_product_id r)))
        \<and> sr_orders_count r = int (length (lines_of orders (sr_product_id r)))
        \<and> sr_name r = name (product (last (lines_of orders (sr_product_id r))))
        \<and> sr_category r = category (product (last (lines_of orders (sr_product_id r))))"
    if "r \<in> set ?rows" for r
  proof -
    from that set_rows obtain p st where m: "(p, st) \<in> set (product_stats orders)"
      and r: "r = stat_row (p, st)"
      by (auto simp: stats_data_rows)
    from product_stats_entries(3) [OF m] r show ?thesis
      by (simp add: stat_row_def add_lines_def stat_default_def)
  qed
  have "sorted_wrt (\<lambda>a b. revenue a \<ge> revenue b) ?rows"
    if "list_all (\<lambda>r. revenue r \<noteq> NaN) ?rows"
  proof -
    from that have "list_all (\<lambda>r. revenue r \<noteq> NaN) ?data"
      by (simp add: list_all_iff set_rows)
    then show ?thesis by (rule sorted)
  qed
  with res dist keys vals show ?thesis by blast
qed

lemma product_stats_example:
  "get_product_sales_stats (sorted_py (\<lambda>r. float_key (revenue r)) True) shop_orders =
     Inr [\<lparr>sr_product_id = 1, sr_name = ''Noutbuk'', sr_category = ''Tekhnika'',
            quantity_sold = 1, revenue = 50000, sr_orders_count = 1\<rparr>,
          \<lparr>sr_product_id = 2, sr_name = ''Mysh'', sr_category = ''Aksessuary'',
            quantity_sold = 3, revenue = 6000, sr_orders_count = 2\<rparr>,
          \<lparr>sr_product_id = 3, sr_name = ''Klaviatura'', sr_category = ''Aksessuary'',
            quantity_sold = 1, revenue = 5000, sr_orders_count = 1\<rparr>]"
  by (simp add: get_product_sales_stats_def stats_data_def product_stats_def note_sale_def
      dict_get_def stat_default_def shop_orders_def shop_products_def order_of_def cust_def
      item_total_def float_of_int_def sorted_py_def Let_def)

lemma sales_total_example:
  "get_sales_dynamics shop_orders ''daily'' =
     [\<lparr>period = Day 2023 1 15, orders_count = 3, total_revenue = 61000, total_items = 5\<rparr>]"
  by (simp add: sales_eval_defs shop_orders_def shop_products_def order_of_def cust_def)

end
